theory Spec2Isabelle
  imports Complex_Main "HOL-Library.Log_Nat" "HOL-Library.Multiset" "HOL-Library.Sublist"
begin

section \<open>Errors and JavaScript primitives\<close>

text \<open>The error classes of \<open>errors.ts\<close>, each with its message, and the \<open>TypeError\<close> that
  JavaScript raises when a property of \<open>undefined\<close> is read.\<close>

datatype error =
    ValidationError string
  | ConfigurationError string
  | ModelNotFoundError string
  | OnnxNoOutputs
  | TypeError

text \<open>\<open>xs[i]\<close>: \<open>undefined\<close> (here \<open>None\<close>) outside the array.\<close>

definition nth_opt :: "'a list \<Rightarrow> nat \<Rightarrow> 'a option" where
  "nth_opt xs i = (if i < length xs then Some (xs ! i) else None)"

text \<open>\<open>text.slice(startChar, endChar)\<close> for non-negative integer arguments: both are clamped
  to the length and an empty string results when \<open>endChar \<le> startChar\<close>.\<close>

definition jsSlice :: "nat \<Rightarrow> nat \<Rightarrow> 'a list \<Rightarrow> 'a list" where
  "jsSlice startChar endChar text = take (endChar - startChar) (drop startChar text)"

text \<open>A loop whose body may throw: the first error ends it.\<close>

fun foldE :: "('s \<Rightarrow> 'a \<Rightarrow> error + 's) \<Rightarrow> 's \<Rightarrow> 'a list \<Rightarrow> error + 's" where
  "foldE f s [] = Inr s"
| "foldE f s (x # xs) = (case f s x of Inl e \<Rightarrow> Inl e | Inr s' \<Rightarrow> foldE f s' xs)"

section \<open>JavaScript numbers\<close>

text \<open>
  A Number is an IEEE 754 double: a finite value, one of the two infinities or NaN. The
  finite values are the reals that a double represents. The two zeros are one value here:
  they compare equal, and the code below never divides by a zero that could be negative (a
  sum that is zero is \<open>+0\<close>), so that nothing it computes tells them apart.
\<close>

datatype number = Fin real | PosInf | NegInf | NaN

text \<open>\<open>floorLog2 a\<close> is the exponent \<open>e\<close> with \<open>2\<^sup>e \<le> a < 2\<^sup>e\<^sup>+\<^sup>1\<close>, for \<open>a > 0\<close>.\<close>

definition floorLog2 :: "real \<Rightarrow> int" where
  "floorLog2 a =
     (if 1 \<le> a then int (floorlog 2 (nat \<lfloor>a\<rfloor>)) - 1
      else - int (floorlog 2 (nat (\<lceil>1 / a\<rceil> - 1))))"

text \<open>The nearest integer, a tie going to the even one.\<close>

definition roundHalfEven :: "real \<Rightarrow> int" where
  "roundHalfEven x =
     (let f = \<lfloor>x\<rfloor>; d = x - of_int f
      in if d < 1 / 2 then f else if 1 / 2 < d then f + 1 else if even f then f else f + 1)"

text \<open>
  Rounding to nearest, ties to even, in a binary format with \<open>p\<close> significant bits and
  exponents from \<open>emin\<close> to \<open>emax\<close>: the result is the nearest multiple of the unit in
  the last place of the binade of the argument (of the subnormal unit below \<open>2\<^sup>e\<^sup>m\<^sup>i\<^sup>n\<close>), and
  an infinity when that multiple is outside the format.
\<close>

definition roundTo :: "nat \<Rightarrow> int \<Rightarrow> int \<Rightarrow> real \<Rightarrow> number" where
  "roundTo p emin emax x =
     (if x = 0 then Fin 0
      else
        (let a = \<bar>x\<bar>;
             e = max (floorLog2 a) emin;
             u = 2 powi (e - (int p - 1));
             m = of_int (roundHalfEven (a / u)) * u
         in if 2 powi (emax + 1) \<le> m then (if 0 < x then PosInf else NegInf)
            else Fin (if 0 < x then m else - m)))"

text \<open>The result of an arithmetic operation is rounded to a double; a value stored in a
  \<open>Float32Array\<close> is rounded to a single.\<close>

definition round64 :: "real \<Rightarrow> number" where
  "round64 = roundTo 53 (- 1022) 1023"

definition round32 :: "real \<Rightarrow> number" where
  "round32 = roundTo 24 (- 126) 127"

text \<open>Unary minus, \<open>+\<close>, \<open>-\<close> and \<open>/\<close>.\<close>

fun jsNeg :: "number \<Rightarrow> number" where
  "jsNeg (Fin x) = Fin (- x)"
| "jsNeg PosInf = NegInf"
| "jsNeg NegInf = PosInf"
| "jsNeg NaN = NaN"

fun jsAdd :: "number \<Rightarrow> number \<Rightarrow> number" where
  "jsAdd (Fin x) (Fin y) = round64 (x + y)"
| "jsAdd NaN y = NaN"
| "jsAdd x NaN = NaN"
| "jsAdd PosInf NegInf = NaN"
| "jsAdd NegInf PosInf = NaN"
| "jsAdd PosInf y = PosInf"
| "jsAdd x PosInf = PosInf"
| "jsAdd NegInf y = NegInf"
| "jsAdd x NegInf = NegInf"

definition jsSub :: "number \<Rightarrow> number \<Rightarrow> number" where
  "jsSub x y = jsAdd x (jsNeg y)"

fun jsDiv :: "number \<Rightarrow> number \<Rightarrow> number" where
  "jsDiv (Fin x) (Fin y) =
     (if y = 0 then (if x = 0 then NaN else if 0 < x then PosInf else NegInf)
      else round64 (x / y))"
| "jsDiv NaN y = NaN"
| "jsDiv x NaN = NaN"
| "jsDiv (Fin x) y = Fin 0"
| "jsDiv PosInf (Fin y) = (if 0 \<le> y then PosInf else NegInf)"
| "jsDiv NegInf (Fin y) = (if 0 \<le> y then NegInf else PosInf)"
| "jsDiv x y = NaN"

text \<open>\<open><\<close>, \<open>>\<close> and \<open>>=\<close>: every comparison with NaN is false.\<close>

fun jsLt :: "number \<Rightarrow> number \<Rightarrow> bool" where
  "jsLt (Fin x) (Fin y) = (x < y)"
| "jsLt NegInf (Fin y) = True"
| "jsLt NegInf PosInf = True"
| "jsLt (Fin x) PosInf = True"
| "jsLt _ _ = False"

definition jsGt :: "number \<Rightarrow> number \<Rightarrow> bool" where
  "jsGt x y = jsLt y x"

definition jsGe :: "number \<Rightarrow> number \<Rightarrow> bool" where
  "jsGe x y = (x \<noteq> NaN \<and> y \<noteq> NaN \<and> \<not> jsLt x y)"

text \<open>A store into a \<open>Float32Array\<close>.\<close>

definition toFloat32 :: "number \<Rightarrow> number" where
  "toFloat32 x = (case x of Fin r \<Rightarrow> round32 r | _ \<Rightarrow> x)"

text \<open>
  \<open>Math.exp\<close>: the language fixes its value at NaN, at the infinities and at zero; at every
  other argument it is an approximation that the engine chooses. The approximation is the
  parameter \<open>approx\<close> of everything that computes an exponential.
\<close>

definition Math_exp :: "(real \<Rightarrow> number) \<Rightarrow> number \<Rightarrow> number" where
  "Math_exp approx x =
     (case x of
        NaN \<Rightarrow> NaN
      | PosInf \<Rightarrow> PosInf
      | NegInf \<Rightarrow> Fin 0
      | Fin r \<Rightarrow> if r = 0 then Fin 1 else approx r)"



definition atLeastOne :: "number \<Rightarrow> bool" where
  "atLeastOne x = (case x of Fin r \<Rightarrow> 1 \<le> r | PosInf \<Rightarrow> True | _ \<Rightarrow> False)"

definition nonNegative :: "number \<Rightarrow> bool" where
  "nonNegative x = (case x of Fin r \<Rightarrow> 0 \<le> r | PosInf \<Rightarrow> True | _ \<Rightarrow> False)"

text \<open>An exponential for concrete runs, as coarse as \<open>boundedExp\<close> allows: it underflows at
  every negative argument and overflows at every positive one.\<close>

definition coarseExp :: "real \<Rightarrow> number" where
  "coarseExp r = (if r < 0 then Fin 0 else PosInf)"

section \<open>Regular expressions and the word splitters\<close>

text \<open>
  A \<open>char\<close> stands for the UTF-16 code unit of the same number, so the model covers the
  texts whose code units are below 256. The character classes are those of a JavaScript
  regular expression without the \<open>u\<close> flag: \<open>\w\<close> is \<open>[A-Za-z0-9_]\<close>, and \<open>\s\<close> (also what
  \<open>trim\<close> removes) is the white space and line terminator set, of which tab, line feed,
  vertical tab, form feed, carriage return, space and the no-break space lie in range.
\<close>

definition isDigit :: "char \<Rightarrow> bool" where
  "isDigit c = (48 \<le> (of_char c :: nat) \<and> (of_char c :: nat) \<le> 57)"

definition isLower :: "char \<Rightarrow> bool" where
  "isLower c = (97 \<le> (of_char c :: nat) \<and> (of_char c :: nat) \<le> 122)"

definition isUpper :: "char \<Rightarrow> bool" where
  "isUpper c = (65 \<le> (of_char c :: nat) \<and> (of_char c :: nat) \<le> 90)"

definition isWordChar :: "char \<Rightarrow> bool" where
  "isWordChar c = (isDigit c \<or> isLower c \<or> isUpper c \<or> c = CHR ''_'')"

definition isSpace :: "char \<Rightarrow> bool" where
  "isSpace c = ((of_char c :: nat) \<in> {9, 10, 11, 12, 13, 32, 160})"

text \<open>\<open>text.trim()\<close>\<close>

definition trim :: "string \<Rightarrow> string" where
  "trim text = rev (dropWhile isSpace (rev (dropWhile isSpace text)))"

text \<open>The fragment of the regular expression syntax that the two patterns use: a character
  class, concatenation, alternation (left alternative first), the greedy star and the empty
  pattern. \<open>r+\<close> is \<open>r r*\<close>, \<open>r?\<close> is \<open>r|\<close>, \<open>r{2,}\<close> is \<open>r r r*\<close>.\<close>

datatype rx = Eps | Cls "char \<Rightarrow> bool" | Seq rx rx | Alt rx rx | Star rx

definition Plus :: "rx \<Rightarrow> rx" where
  "Plus r = Seq r (Star r)"

definition Opt :: "rx \<Rightarrow> rx" where
  "Opt r = Alt r Eps"

text \<open>
  The backtracking matcher of ECMAScript as a list of successes: \<open>matchEnds r s\<close> lists, in the
  order in which backtracking tries them, the remainders of \<open>s\<close> after a match of \<open>r\<close> at the
  start of \<open>s\<close>. The head of the list is the match that \<open>exec\<close> reports. An iteration of a
  star that consumes nothing is rejected, so each iteration shortens the input and
  \<open>length s\<close> iterations are all there can be.
\<close>

fun starEnds :: "(string \<Rightarrow> string list) \<Rightarrow> nat \<Rightarrow> string \<Rightarrow> string list" where
  "starEnds f 0 s = [s]"
| "starEnds f (Suc n) s =
     concat (map (\<lambda>s'. if length s' < length s then starEnds f n s' else []) (f s)) @ [s]"

primrec matchEnds :: "rx \<Rightarrow> string \<Rightarrow> string list" where
  "matchEnds Eps = (\<lambda>s. [s])"
| "matchEnds (Cls P) = (\<lambda>s. case s of [] \<Rightarrow> [] | c # cs \<Rightarrow> if P c then [cs] else [])"
| "matchEnds (Seq a b) = (\<lambda>s. concat (map (matchEnds b) (matchEnds a s)))"
| "matchEnds (Alt a b) = (\<lambda>s. matchEnds a s @ matchEnds b s)"
| "matchEnds (Star a) = (\<lambda>s. starEnds (matchEnds a) (length s) s)"

text \<open>\<open>pattern.exec(text)\<close> with the \<open>g\<close> flag, from position \<open>i\<close> where \<open>s\<close> is the text from
  \<open>i\<close> on: the first position at which the pattern matches, as \<open>(match.index, match[0])\<close>.\<close>

fun execFrom :: "rx \<Rightarrow> string \<Rightarrow> nat \<Rightarrow> (nat \<times> string) option" where
  "execFrom r [] i =
     (case matchEnds r [] of [] \<Rightarrow> None | rest # _ \<Rightarrow> Some (i, []))"
| "execFrom r (c # cs) i =
     (case matchEnds r (c # cs) of
        [] \<Rightarrow> execFrom r cs (Suc i)
      | rest # _ \<Rightarrow> Some (i, take (length (c # cs) - length rest) (c # cs)))"

definition exec :: "rx \<Rightarrow> string \<Rightarrow> nat \<Rightarrow> (nat \<times> string) option" where
  "exec r text lastIndex =
     (if lastIndex > length text then None else execFrom r (drop lastIndex text) lastIndex)"

text \<open>
  The loop \<open>while ((match = pattern.exec(text)) !== null) yield [match[0], match.index,
  pattern.lastIndex]\<close>, where \<open>exec\<close> sets \<open>lastIndex\<close> to the end of the match. After an empty
  match \<open>lastIndex\<close> does not move and the loop runs forever: the result is then \<open>None\<close>.
\<close>

partial_function (option) splitLoop ::
  "rx \<Rightarrow> string \<Rightarrow> nat \<Rightarrow> (string \<times> nat \<times> nat) list option" where
  "splitLoop r text lastIndex =
     (case exec r text lastIndex of
        None \<Rightarrow> Some []
      | Some (index, matched) \<Rightarrow>
          Option.bind (splitLoop r text (index + length matched))
            (\<lambda>more. Some ((matched, index, index + length matched) # more)))"

declare splitLoop.simps [code]

subsection \<open>GLiNER1: \<open>WhitespaceTokenSplitter\<close>\<close>

text \<open>\<open>\w+(?:[-_]\w+)*\<close>\<close>

definition wordRx :: rx where
  "wordRx = Seq (Plus (Cls isWordChar))
              (Star (Seq (Cls (\<lambda>c. c = CHR ''-'' \<or> c = CHR ''_'')) (Plus (Cls isWordChar))))"

text \<open>\<open>\S\<close>\<close>

definition nonSpaceRx :: rx where
  "nonSpaceRx = Cls (\<lambda>c. \<not> isSpace c)"

text \<open>\<open>/\w+(?:[-_]\w+)*|\S/g\<close>\<close>

definition whitespacePattern :: rx where
  "whitespacePattern = Alt wordRx nonSpaceRx"

text \<open>\<open>WhitespaceTokenSplitter.split\<close>: \<open>lastIndex\<close> is reset to \<open>0\<close>, then the loop runs. The
  generator is consumed at once by its only caller, \<open>tokenizeTexts\<close>.\<close>

definition whitespaceSplit :: "string \<Rightarrow> (string \<times> nat \<times> nat) list option" where
  "whitespaceSplit text = splitLoop whitespacePattern text 0"

subsection \<open>GLiNER2: \<open>WORD_PATTERN\<close>\<close>

text \<open>With the \<open>i\<close> flag a letter of the pattern matches both of its cases, and no code unit
  outside ASCII matches an ASCII letter.\<close>

definition chr :: "char \<Rightarrow> rx" where
  "chr c = Cls (\<lambda>x. x = c)"

definition chrI :: "char \<Rightarrow> char \<Rightarrow> rx" where
  "chrI lower upper = Cls (\<lambda>x. x = lower \<or> x = upper)"

definition isAlpha :: "char \<Rightarrow> bool" where
  "isAlpha c = (isLower c \<or> isUpper c)"

text \<open>\<open>(?:https?:\/\/[^\s]+|www\.[^\s]+)\<close>\<close>

definition urlRx :: rx where
  "urlRx =
     Alt (Seq (chrI CHR ''h'' CHR ''H'') (Seq (chrI CHR ''t'' CHR ''T'')
           (Seq (chrI CHR ''t'' CHR ''T'') (Seq (chrI CHR ''p'' CHR ''P'')
           (Seq (Opt (chrI CHR ''s'' CHR ''S''))
           (Seq (chr CHR '':'') (Seq (chr CHR ''/'') (Seq (chr CHR ''/'')
           (Plus nonSpaceRx)))))))))
         (Seq (chrI CHR ''w'' CHR ''W'') (Seq (chrI CHR ''w'' CHR ''W'')
           (Seq (chrI CHR ''w'' CHR ''W'') (Seq (chr CHR ''.'') (Plus nonSpaceRx)))))"

text \<open>\<open>[a-z0-9._%+-]+@[a-z0-9.-]+\.[a-z]{2,}\<close>\<close>

definition emailRx :: rx where
  "emailRx =
     Seq (Plus (Cls (\<lambda>c. isAlpha c \<or> isDigit c \<or> c \<in> set ''._%+-'')))
       (Seq (chr CHR ''@'')
         (Seq (Plus (Cls (\<lambda>c. isAlpha c \<or> isDigit c \<or> c \<in> set ''.-'')))
           (Seq (chr CHR ''.'')
             (Seq (Cls isAlpha) (Seq (Cls isAlpha) (Star (Cls isAlpha)))))))"

text \<open>\<open>@[a-z0-9_]+\<close>\<close>

definition mentionRx :: rx where
  "mentionRx = Seq (chr CHR ''@'') (Plus (Cls (\<lambda>c. isAlpha c \<or> isDigit c \<or> c = CHR ''_'')))"

definition WORD_PATTERN :: rx where
  "WORD_PATTERN = Alt urlRx (Alt emailRx (Alt mentionRx (Alt wordRx nonSpaceRx)))"

text \<open>The loop of \<open>tokenizeWords\<close> and \<open>tokenizeText\<close> on a fresh pattern
  (\<open>createWordPattern\<close>), without the tokenizer calls: the matches with their offsets
  \<open>[match.index, match.index + match[0].length]\<close>.\<close>

definition wordPatternSplit :: "string \<Rightarrow> (string \<times> nat \<times> nat) list option" where
  "wordPatternSplit text = splitLoop WORD_PATTERN text 0"

subsection \<open>What a tokenization of a text is\<close>

text \<open>\<open>clsAll P r\<close>: every character class of \<open>r\<close> lies within \<open>P\<close>. \<open>nullable r\<close>: \<open>r\<close> can
  match the empty string.\<close>

primrec clsAll :: "(char \<Rightarrow> bool) \<Rightarrow> rx \<Rightarrow> bool" where
  "clsAll P Eps = True"
| "clsAll P (Cls Q) = (\<forall>c. Q c \<longrightarrow> P c)"
| "clsAll P (Seq a b) = (clsAll P a \<and> clsAll P b)"
| "clsAll P (Alt a b) = (clsAll P a \<and> clsAll P b)"
| "clsAll P (Star a) = clsAll P a"

primrec nullable :: "rx \<Rightarrow> bool" where
  "nullable Eps = True"
| "nullable (Cls Q) = False"
| "nullable (Seq a b) = (nullable a \<and> nullable b)"
| "nullable (Alt a b) = (nullable a \<or> nullable b)"
| "nullable (Star a) = True"

text \<open>
  \<open>tokenizes r s i toks\<close>: the triples \<open>toks\<close> tokenize, by the pattern \<open>r\<close>, the text whose
  part from index \<open>i\<close> on is \<open>s\<close>. Each token is a non-empty, whitespace-free slice
  \<open>[start, end)\<close> of the text and is the match that \<open>r\<close> reports at \<open>start\<close>, the tokens
  follow each other without overlap, and every character before, between and after them is
  whitespace.
\<close>

fun tokenizes :: "rx \<Rightarrow> string \<Rightarrow> nat \<Rightarrow> (string \<times> nat \<times> nat) list \<Rightarrow> bool" where
  "tokenizes r s i [] = list_all isSpace s"
| "tokenizes r s i ((tok, start, end') # more) =
     (i \<le> start \<and> list_all isSpace (take (start - i) s)
      \<and> tok \<noteq> [] \<and> list_all (\<lambda>c. \<not> isSpace c) tok
      \<and> tok = take (length tok) (drop (start - i) s)
      \<and> start - i + length tok \<le> length s
      \<and> end' = start + length tok
      \<and> matchEnds r (drop (start - i) s) \<noteq> []
      \<and> hd (matchEnds r (drop (start - i) s)) = drop (start - i + length tok) s
      \<and> tokenizes r (drop (start - i + length tok) s) end' more)"

text \<open>The remainder of a text after the word that starts it, computed directly: the
  longest run of word characters, continued as long as a \<open>-\<close> or \<open>_\<close> is followed by a word
  character (and then by the longest run again).\<close>

function wordTail :: "string \<Rightarrow> string" where
  "wordTail s =
     (case s of
        c # d # cs \<Rightarrow>
          if (c = CHR ''-'' \<or> c = CHR ''_'') \<and> isWordChar d
          then wordTail (dropWhile isWordChar (d # cs)) else s
      | _ \<Rightarrow> s)"
  by pat_completeness auto
termination
  by (relation "measure length") (auto simp: less_Suc_eq_le le_SucI length_dropWhile_le)

declare wordTail.simps [simp del]

definition afterWord :: "string \<Rightarrow> string" where
  "afterWord s = wordTail (dropWhile isWordChar s)"

section \<open>Span lattices\<close>

text \<open>
  Array lengths, loop counters and the configured maximum width are natural numbers.
  In \<open>buildSpans\<close> the subtraction \<open>textLength - 1\<close> is evaluated only inside the loop
  over \<open>startIdx < textLength\<close>, hence only for \<open>textLength \<ge> 1\<close>, where it agrees with
  truncated subtraction.
\<close>

subsection \<open>GLiNER1: \<open>SpanProcessor.buildSpans\<close>\<close>

text \<open>The body of the two inner loops: the pair and the mask pushed for one
  \<open>(startIdx, width)\<close>.\<close>

definition buildSpansCell :: "nat \<Rightarrow> nat \<Rightarrow> nat \<Rightarrow> (nat \<times> nat) \<times> bool" where
  "buildSpansCell textLength startIdx width =
     (let endIdx = min (startIdx + width) (textLength - 1)
      in ((startIdx, endIdx), endIdx < textLength))"

text \<open>A loop nest \<open>for i < n: for j < w: push (f i j)\<close>.\<close>

definition loopNest :: "nat \<Rightarrow> nat \<Rightarrow> (nat \<Rightarrow> nat \<Rightarrow> 'a) \<Rightarrow> 'a list" where
  "loopNest n w f = concat (map (\<lambda>i. map (f i) [0..<w]) [0..<n])"

text \<open>One example of the batch: \<open>spanIdx\<close> and \<open>spanMask\<close> for \<open>textLength\<close> words.\<close>

definition buildSpansRow :: "nat \<Rightarrow> nat \<Rightarrow> (nat \<times> nat) list \<times> bool list" where
  "buildSpansRow maxWidth textLength =
     (let cells = loopNest textLength maxWidth (buildSpansCell textLength)
      in (map fst cells, map snd cells))"

text \<open>The whole batch: \<open>spanIdxs\<close> and \<open>spanMasks\<close>, one row per token list.\<close>

definition buildSpans :: "nat \<Rightarrow> 'a list list \<Rightarrow> (nat \<times> nat) list list \<times> bool list list" where
  "buildSpans maxWidth batchTokens =
     (map (\<lambda>tokens. fst (buildSpansRow maxWidth (length tokens))) batchTokens,
      map (\<lambda>tokens. snd (buildSpansRow maxWidth (length tokens))) batchTokens)"

subsection \<open>GLiNER2: \<open>generateSpans\<close>\<close>

record SpanIndices =
  spanStart :: "nat list"
  spanEnd :: "nat list"
  numSpans :: nat

definition generateSpansCell :: "nat \<Rightarrow> nat \<Rightarrow> nat \<Rightarrow> nat \<times> nat" where
  "generateSpansCell seqLen i j = (if i + j < seqLen then (i, i + j) else (0, 0))"

definition generateSpans :: "nat \<Rightarrow> nat \<Rightarrow> SpanIndices" where
  "generateSpans seqLen maxWidth =
     (let cells = loopNest seqLen maxWidth (generateSpansCell seqLen)
      in \<lparr>spanStart = map fst cells, spanEnd = map snd cells, numSpans = length (map fst cells)\<rparr>)"

section \<open>GLiNER1 decoder: overlap resolution\<close>

text \<open>
  \<open>RawSpan = [text, start, end, label, score]\<close>. Character offsets are natural numbers
  (they are regular-expression match indices). The record is generic in the score: the
  decoder computes Numbers, and \<open>greedySearch\<close> orders spans whose scores are finite
  Numbers, which are read as the reals that they are.
\<close>

record 's ScoredSpan =
  span_text :: string
  span_start :: nat
  span_end :: nat
  span_label :: string
  span_score :: 's

type_synonym RawSpan = "real ScoredSpan"

definition spansOverlap :: "nat \<Rightarrow> nat \<Rightarrow> nat \<Rightarrow> nat \<Rightarrow> bool \<Rightarrow> bool \<Rightarrow> bool" where
  "spansOverlap start1 end1 start2 end2 allowNested allowMultiLabel =
     (if start1 = start2 \<and> end1 = end2 then \<not> allowMultiLabel
      else if start1 > end2 \<or> start2 > end1 then False
      else if allowNested \<and>
              ((start1 \<le> start2 \<and> end1 \<ge> end2) \<or> (start2 \<le> start1 \<and> end2 \<ge> end1))
           then False
      else True)"

text \<open>The callback of \<open>selected.some\<close>:
  \<open>(existing) => spansOverlap(span[1], span[2], existing[1], existing[2], !flatNer, multiLabel)\<close>,
  the loop variable \<open>span\<close> written \<open>sp\<close>.\<close>

definition spansConflict :: "bool \<Rightarrow> bool \<Rightarrow> RawSpan \<Rightarrow> RawSpan \<Rightarrow> bool" where
  "spansConflict flatNer multiLabel sp existing =
     spansOverlap (span_start sp) (span_end sp) (span_start existing) (span_end existing)
       (\<not> flatNer) multiLabel"

text \<open>One iteration of \<open>for (const span of sorted)\<close>: push unless some selected span
  overlaps.\<close>

definition greedyStep :: "bool \<Rightarrow> bool \<Rightarrow> RawSpan list \<Rightarrow> RawSpan \<Rightarrow> RawSpan list" where
  "greedyStep flatNer multiLabel selected sp =
     (let hasOverlap = list_ex (spansConflict flatNer multiLabel sp) selected
      in if \<not> hasOverlap then selected @ [sp] else selected)"

text \<open>\<open>Array.prototype.sort\<close> is stable; \<open>sort((a, b) => b[4] - a[4])\<close> orders by score
  descending and \<open>sort((a, b) => a[1] - b[1])\<close> by start ascending. \<^const>\<open>sort_key\<close> is
  the stable insertion sort on a key.\<close>

definition sortByScoreDesc :: "RawSpan list \<Rightarrow> RawSpan list" where
  "sortByScoreDesc spans = sort_key (\<lambda>s. - span_score s) spans"

definition greedySelected :: "RawSpan list \<Rightarrow> bool \<Rightarrow> bool \<Rightarrow> RawSpan list" where
  "greedySelected spans flatNer multiLabel =
     foldl (greedyStep flatNer multiLabel) [] (sortByScoreDesc spans)"

definition greedySearch :: "RawSpan list \<Rightarrow> bool \<Rightarrow> bool \<Rightarrow> RawSpan list" where
  "greedySearch spans flatNer multiLabel =
     sort_key span_start (greedySelected spans flatNer multiLabel)"

section \<open>GLiNER2 decoder: entities\<close>

record Entity =
  ent_text :: string
  ent_label :: string
  ent_start :: nat
  ent_end :: nat
  ent_score :: real

text \<open>The callback of \<open>kept.some\<close>: \<open>(existing) => entity.label === existing.label &&
  entity.start < existing.end && entity.end > existing.start\<close>.\<close>

definition entityConflict :: "Entity \<Rightarrow> Entity \<Rightarrow> bool" where
  "entityConflict entity existing =
     (ent_label entity = ent_label existing \<and> ent_start entity < ent_end existing
      \<and> ent_end entity > ent_start existing)"

definition dedupStep :: "Entity list \<Rightarrow> Entity \<Rightarrow> Entity list" where
  "dedupStep kept entity =
     (let hasOverlap = list_ex (entityConflict entity) kept
      in if \<not> hasOverlap then kept @ [entity] else kept)"

definition deduplicateEntities :: "Entity list \<Rightarrow> Entity list" where
  "deduplicateEntities entities =
     (if length entities = 0 then []
      else foldl dedupStep [] (sort_key (\<lambda>e. - ent_score e) entities))"

text \<open>\<open>NerScoreData\<close>: the dense \<open>[span, label]\<close> score matrix (finite values, read
  as the reals that they are) with the explicit word-span table. A cell of a \<open>Float32Array\<close> is \<open>None\<close> when it
  holds NaN, which is what is stored when an operand was read outside an array.\<close>

record NerScoreData =
  scores :: "real option list"
  wordSpanStart :: "nat list"
  wordSpanEnd :: "nat list"
  spanCount :: nat

type_synonym WordOffset = "nat \<times> nat"

text \<open>\<open>startWord >= wordCount\<close> where \<open>startWord\<close> may be \<open>undefined\<close>: the comparison with
  \<open>undefined\<close> is false.\<close>

definition geUndef :: "nat option \<Rightarrow> nat \<Rightarrow> bool" where
  "geUndef w n = (case w of None \<Rightarrow> False | Some v \<Rightarrow> v \<ge> n)"

text \<open>The body of the inner loop over \<open>labelIdx\<close>. A score that is NaN or is read outside
  the array (\<open>undefined\<close>) fails \<open>score >= threshold\<close>; reading \<open>startOffset[0]\<close> of an
  \<open>undefined\<close> offset throws.\<close>

definition decodeLabel ::
  "NerScoreData \<Rightarrow> string list \<Rightarrow> WordOffset list \<Rightarrow> string \<Rightarrow> real \<Rightarrow> nat
   \<Rightarrow> nat option \<Rightarrow> nat option \<Rightarrow> Entity list \<Rightarrow> nat \<Rightarrow> error + Entity list" where
  "decodeLabel scoreData labels wordOffsets text threshold spanIdx startWord endWord entities labelIdx =
     (case Option.bind (nth_opt (scores scoreData) (spanIdx * length labels + labelIdx)) id of
        None \<Rightarrow> Inr entities
      | Some score \<Rightarrow>
          if score \<ge> threshold then
            (case (Option.bind startWord (nth_opt wordOffsets),
                   Option.bind endWord (nth_opt wordOffsets)) of
               (Some startOffset, Some endOffset) \<Rightarrow>
                 Inr (entities @
                   [\<lparr>ent_text = jsSlice (fst startOffset) (snd endOffset) text,
                     ent_label = labels ! labelIdx,
                     ent_start = fst startOffset,
                     ent_end = snd endOffset,
                     ent_score = score\<rparr>])
             | _ \<Rightarrow> Inl TypeError)
          else Inr entities)"

text \<open>The body of the outer loop over \<open>spanIdx\<close>.\<close>

definition decodeSpan ::
  "NerScoreData \<Rightarrow> nat \<Rightarrow> string list \<Rightarrow> WordOffset list \<Rightarrow> string \<Rightarrow> real
   \<Rightarrow> Entity list \<Rightarrow> nat \<Rightarrow> error + Entity list" where
  "decodeSpan scoreData wordCount labels wordOffsets text threshold entities spanIdx =
     (let startWord = nth_opt (wordSpanStart scoreData) spanIdx;
          endWord = nth_opt (wordSpanEnd scoreData) spanIdx
      in if geUndef startWord wordCount \<or> geUndef endWord wordCount then Inr entities
         else foldE (decodeLabel scoreData labels wordOffsets text threshold spanIdx startWord endWord)
                entities [0..<length labels])"

definition decodeEntities ::
  "NerScoreData \<Rightarrow> nat \<Rightarrow> string list \<Rightarrow> WordOffset list \<Rightarrow> string \<Rightarrow> real
   \<Rightarrow> error + Entity list" where
  "decodeEntities scoreData wordCount labels wordOffsets text threshold =
     (case foldE (decodeSpan scoreData wordCount labels wordOffsets text threshold) []
             [0..<spanCount scoreData] of
        Inl e \<Rightarrow> Inl e
      | Inr entities \<Rightarrow> Inr (deduplicateEntities entities))"

section \<open>Score transforms and the classification decoder (GLiNER2)\<close>

text \<open>\<open>sigmoid\<close> and \<open>sigmoidArray\<close>, whose result is a \<open>Float32Array\<close>.\<close>

definition sigmoid :: "(real \<Rightarrow> number) \<Rightarrow> number \<Rightarrow> number" where
  "sigmoid approx x =
     (if jsGe x (Fin 0) then jsDiv (Fin 1) (jsAdd (Fin 1) (Math_exp approx (jsNeg x)))
      else (let expX = Math_exp approx x in jsDiv expX (jsAdd (Fin 1) expX)))"


text \<open>\<open>softmax\<close>: \<open>maxVal\<close> starts at \<open>-Infinity\<close>; each exponential is stored in the
  \<open>Float32Array\<close> and added, as the double that it is, to the sum; then each stored value
  is divided by the sum and stored again.\<close>

definition softmaxMax :: "number list \<Rightarrow> number" where
  "softmaxMax values = foldl (\<lambda>maxVal val. if jsGt val maxVal then val else maxVal) NegInf values"

definition softmax :: "(real \<Rightarrow> number) \<Rightarrow> number list \<Rightarrow> number list" where
  "softmax approx values =
     (let maxVal = softmaxMax values;
          expVals = map (\<lambda>v. Math_exp approx (jsSub v maxVal)) values;
          total = foldl jsAdd (Fin 0) expVals
      in map (\<lambda>expVal. toFloat32 (jsDiv (toFloat32 expVal) total)) expVals)"






section \<open>GLiNER1 decoder: \<open>SpanDecoder\<close>\<close>

definition DEFAULT_THRESHOLD :: real where
  "DEFAULT_THRESHOLD = 0.5"

definition ENTITY_ID_OFFSET :: nat where
  "ENTITY_ID_OFFSET = 1"

text \<open>\<open>SpanProcessor.buildIdToClass\<close>: the object \<open>idToClass\<close> as a map from integer keys.\<close>

definition buildIdToClass :: "string list \<Rightarrow> (nat \<rightharpoonup> string)" where
  "buildIdToClass entities =
     foldl (\<lambda>idToClass i. idToClass(i + 1 \<mapsto> entities ! i)) Map.empty [0..<length entities]"

text \<open>
  The body of the loop of \<open>extractSpans\<close> for one \<open>idx < modelOutput.length\<close>, up to the
  \<open>push\<close>: \<open>None\<close> is \<open>continue\<close>, \<open>Some (batchIdx, span)\<close> is the span to push to
  \<open>spans[batchIdx]\<close>. The dimensions are array lengths and the configured width, natural
  numbers. When \<open>batchStride\<close> is \<open>0\<close> the quotient \<open>idx / batchStride\<close> is \<open>Infinity\<close> or
  \<open>NaN\<close>, \<open>charStartOffsets[batchIdx]\<close> is \<open>undefined\<close> and the element is skipped; when it
  is positive so are the other two strides and \<open>inputLength\<close>, and \<open>Math.floor\<close> of the
  quotients and \<open>%\<close> are \<open>div\<close> and \<open>mod\<close>. An array is truthy, also the empty one. The
  score is the Number that \<open>sigmoid\<close> computes; \<open>prob < threshold\<close> is false when it is NaN.
\<close>

definition extractCandidate ::
  "(real \<Rightarrow> number) \<Rightarrow> nat \<Rightarrow> nat \<Rightarrow> nat \<Rightarrow> string list \<Rightarrow> nat list \<Rightarrow> nat list list
   \<Rightarrow> nat list list \<Rightarrow> (nat \<rightharpoonup> string) \<Rightarrow> number list \<Rightarrow> number \<Rightarrow> nat
   \<Rightarrow> (nat \<times> number ScoredSpan) option" where
  "extractCandidate approx maxWidth inputLength entityCount texts batchIds charStartOffsets
       charEndOffsets idToClass modelOutput threshold idx =
     (let batchStride = inputLength * maxWidth * entityCount;
          tokenStride = maxWidth * entityCount;
          widthStride = entityCount;
          prob = sigmoid approx (modelOutput ! idx)
      in if jsLt prob threshold then None
         else if batchStride = 0 then None
         else
           (let batchIdx = idx div batchStride;
                startToken = (idx div tokenStride) mod inputLength;
                endToken = startToken + (idx div widthStride) mod maxWidth;
                entityIdx = idx mod entityCount
            in case (nth_opt charStartOffsets batchIdx, nth_opt charEndOffsets batchIdx) of
                 (Some starts, Some ends) \<Rightarrow>
                   if startToken \<ge> length starts \<or> endToken \<ge> length ends then None
                   else
                     (let globalBatchIdx = (case nth_opt batchIds batchIdx of None \<Rightarrow> 0 | Some g \<Rightarrow> g);
                          text = (case nth_opt texts globalBatchIdx of None \<Rightarrow> [] | Some t \<Rightarrow> t);
                          startChar = starts ! startToken;
                          endChar = ends ! endToken
                      in Some (batchIdx,
                           \<lparr>span_text = jsSlice startChar endChar text,
                             span_start = startChar,
                             span_end = endChar,
                             span_label = (case idToClass (entityIdx + ENTITY_ID_OFFSET) of
                                             None \<Rightarrow> [] | Some c \<Rightarrow> c),
                             span_score = prob\<rparr>))
               | _ \<Rightarrow> None))"

text \<open>\<open>spans[batchIdx]!.push(...)\<close> throws a \<open>TypeError\<close> when \<open>spans\<close> has no row
  \<open>batchIdx\<close>.\<close>

definition pushSpan :: "'a list list \<Rightarrow> (nat \<times> 'a) option \<Rightarrow> error + 'a list list" where
  "pushSpan spans c =
     (case c of
        None \<Rightarrow> Inr spans
      | Some (batchIdx, sp) \<Rightarrow>
          if batchIdx < length spans then Inr (spans[batchIdx := spans ! batchIdx @ [sp]])
          else Inl TypeError)"

definition extractSpans ::
  "(real \<Rightarrow> number) \<Rightarrow> nat \<Rightarrow> nat \<Rightarrow> nat \<Rightarrow> nat \<Rightarrow> string list \<Rightarrow> nat list \<Rightarrow> nat list list
   \<Rightarrow> nat list list \<Rightarrow> (nat \<rightharpoonup> string) \<Rightarrow> number list \<Rightarrow> number
   \<Rightarrow> error + number ScoredSpan list list" where
  "extractSpans approx maxWidth batchSize inputLength entityCount texts batchIds charStartOffsets
       charEndOffsets idToClass modelOutput threshold =
     foldE (\<lambda>spans idx. pushSpan spans
              (extractCandidate approx maxWidth inputLength entityCount texts batchIds
                 charStartOffsets charEndOffsets idToClass modelOutput threshold idx))
       (replicate batchSize []) [0..<length modelOutput]"

record DecoderOptions =
  opt_threshold :: "real option"
  opt_flatNer :: "bool option"
  opt_multiLabel :: "bool option"

text \<open>
  The spans that \<open>decode\<close> hands to \<open>greedySearch\<close>. A score computed from a finite logit is
  finite whenever \<open>boundedExp\<close> holds of the engine's exponential; it is then the real that
  \<open>finiteScore\<close> returns. The order in which \<open>sort\<close> would leave spans whose score is NaN is
  the engine's choice and is no part of this model: such a score reads as \<open>0\<close>.
\<close>

definition finiteScore :: "number \<Rightarrow> real" where
  "finiteScore x = (case x of Fin r \<Rightarrow> r | _ \<Rightarrow> 0)"

definition finiteSpan :: "number ScoredSpan \<Rightarrow> RawSpan" where
  "finiteSpan sp =
     \<lparr>span_text = span_text sp, span_start = span_start sp, span_end = span_end sp,
       span_label = span_label sp, span_score = finiteScore (span_score sp)\<rparr>"

definition decode ::
  "(real \<Rightarrow> number) \<Rightarrow> nat \<Rightarrow> nat \<Rightarrow> nat \<Rightarrow> nat \<Rightarrow> string list \<Rightarrow> nat list \<Rightarrow> nat list list
   \<Rightarrow> nat list list \<Rightarrow> (nat \<rightharpoonup> string) \<Rightarrow> number list \<Rightarrow> DecoderOptions
   \<Rightarrow> error + RawSpan list list" where
  "decode approx maxWidth batchSize inputLength entityCount texts batchIds charStartOffsets
       charEndOffsets idToClass modelOutput options =
     (let threshold = (case opt_threshold options of None \<Rightarrow> DEFAULT_THRESHOLD | Some t \<Rightarrow> t);
          flatNer = (case opt_flatNer options of None \<Rightarrow> True | Some f \<Rightarrow> f);
          multiLabel = (case opt_multiLabel options of None \<Rightarrow> False | Some m \<Rightarrow> m)
      in case extractSpans approx maxWidth batchSize inputLength entityCount texts batchIds
                charStartOffsets charEndOffsets idToClass modelOutput (Fin threshold) of
           Inl e \<Rightarrow> Inl e
         | Inr spans \<Rightarrow>
             Inr (map (\<lambda>batchSpans. greedySearch (map finiteSpan batchSpans) flatNer multiLabel)
                    spans))"

section \<open>The common shape of the two greedy loops\<close>

text \<open>Both \<open>greedySearch\<close> and \<open>deduplicateEntities\<close> run a loop that appends the next
  candidate unless it conflicts with an element kept so far. This step function, with the
  conflict test as a parameter, is what the lemmas about both loops are proved for.\<close>

definition keepStep :: "('a \<Rightarrow> 'a \<Rightarrow> bool) \<Rightarrow> 'a list \<Rightarrow> 'a \<Rightarrow> 'a list" where
  "keepStep conflict kept x = (if list_ex (conflict x) kept then kept else kept @ [x])"

section \<open>GLiNER1 processor: \<open>SpanProcessor\<close>\<close>

text \<open>
  The collaborators are parameters: the tokenizer (\<open>encode\<close> and the separator id) and the
  inference session. Every call of a collaborator is counted in a \<open>Calls\<close> record that the
  functions pass along.
\<close>

record GLiNER1Tokenizer =
  encode :: "string \<Rightarrow> int list"
  sep_token_id :: int

record Calls =
  tokenizerCalls :: nat
  engineCalls :: nat

definition ENTITY_MARKER :: string where
  "ENTITY_MARKER = ''<<ENT>>''"

definition SEPARATOR_MARKER :: string where
  "SEPARATOR_MARKER = ''<<SEP>>''"

definition CLS_TOKEN_ID :: int where
  "CLS_TOKEN_ID = 1"

definition PAD_VALUE :: int where
  "PAD_VALUE = 0"

text \<open>\<open>tokenizeTexts\<close>: the tokens, start offsets and end offsets of every text. The result is
  \<open>None\<close> if the splitter does not return for some text.\<close>

fun tokenizeTexts :: "string list \<Rightarrow> (string list list \<times> nat list list \<times> nat list list) option" where
  "tokenizeTexts [] = Some ([], [], [])"
| "tokenizeTexts (text # texts) =
     (case whitespaceSplit text of
        None \<Rightarrow> None
      | Some triples \<Rightarrow>
          (case tokenizeTexts texts of
             None \<Rightarrow> None
           | Some (batchTokens, batchStarts, batchEnds) \<Rightarrow>
               Some (map fst triples # batchTokens,
                     map (\<lambda>t. fst (snd t)) triples # batchStarts,
                     map (\<lambda>t. snd (snd t)) triples # batchEnds)))"

text \<open>\<open>buildInputSequences\<close>: \<open>(inputTexts, textLengths, promptLengths)\<close>.\<close>

definition promptOf :: "string list \<Rightarrow> string list" where
  "promptOf entities = concat (map (\<lambda>entity. [ENTITY_MARKER, entity]) entities) @ [SEPARATOR_MARKER]"

definition buildInputSequences ::
  "string list list \<Rightarrow> string list \<Rightarrow> string list list \<times> nat list \<times> nat list" where
  "buildInputSequences batchTokens entities =
     (map (\<lambda>tokens. promptOf entities @ tokens) batchTokens,
      map length batchTokens,
      map (\<lambda>tokens. length (promptOf entities)) batchTokens)"

text \<open>\<open>encodeInputs\<close>. The state of the loop over the sub-tokens of one word:
  \<open>(inputIds, attentionMask, wordsMask, wordCounter)\<close>.\<close>

type_synonym encState = "int list \<times> int list \<times> int list \<times> int"

definition tokenStep :: "nat \<Rightarrow> nat \<Rightarrow> int list \<Rightarrow> encState \<Rightarrow> nat \<Rightarrow> encState" where
  "tokenStep promptLength wordIdx wordTokenIds st tokenIdx =
     (case st of (inputIds, attentionMask, wordsMask, wordCounter) \<Rightarrow>
        (inputIds @ [wordTokenIds ! tokenIdx],
         attentionMask @ [1],
         (if wordIdx < promptLength then wordsMask @ [PAD_VALUE]
          else if tokenIdx = 0 then wordsMask @ [wordCounter]
          else wordsMask @ [PAD_VALUE]),
         (if \<not> wordIdx < promptLength \<and> tokenIdx = 0 then wordCounter + 1 else wordCounter)))"

text \<open>One word: \<open>this.tokenizer.encode(tokens[wordIdx]).slice(1, -1)\<close>, one tokenizer call,
  then the loop over its sub-tokens.\<close>

definition wordStep ::
  "GLiNER1Tokenizer \<Rightarrow> nat \<Rightarrow> string list \<Rightarrow> encState \<times> Calls \<Rightarrow> nat \<Rightarrow> encState \<times> Calls" where
  "wordStep tokenizer promptLength tokens sc wordIdx =
     (case sc of (st, calls) \<Rightarrow>
        (let wordTokenIds = butlast (tl (encode tokenizer (tokens ! wordIdx)))
         in (foldl (tokenStep promptLength wordIdx wordTokenIds) st [0..<length wordTokenIds],
             calls\<lparr>tokenizerCalls := tokenizerCalls calls + 1\<rparr>)))"

text \<open>One example of the batch.\<close>

definition encodeExample ::
  "GLiNER1Tokenizer \<Rightarrow> nat \<Rightarrow> string list \<Rightarrow> Calls \<Rightarrow> (int list \<times> int list \<times> int list) \<times> Calls" where
  "encodeExample tokenizer promptLength tokens calls =
     (case foldl (wordStep tokenizer promptLength tokens)
             (([CLS_TOKEN_ID], [1], [PAD_VALUE], 1), calls) [0..<length tokens] of
        ((inputIds, attentionMask, wordsMask, wordCounter), calls') \<Rightarrow>
          ((inputIds @ [sep_token_id tokenizer], attentionMask @ [1], wordsMask @ [PAD_VALUE]),
           calls'))"

fun encodeInputs ::
  "GLiNER1Tokenizer \<Rightarrow> string list list \<Rightarrow> nat list \<Rightarrow> Calls
   \<Rightarrow> (int list list \<times> int list list \<times> int list list) \<times> Calls" where
  "encodeInputs tokenizer [] promptLengths calls = (([], [], []), calls)"
| "encodeInputs tokenizer (tokens # inputTexts) promptLengths calls =
     (case encodeExample tokenizer (hd promptLengths) tokens calls of
        ((inputIds, attentionMask, wordsMask), calls1) \<Rightarrow>
          (case encodeInputs tokenizer inputTexts (tl promptLengths) calls1 of
             ((inputsIds, attentionMasks, wordsMasks), calls2) \<Rightarrow>
               ((inputIds # inputsIds, attentionMask # attentionMasks, wordsMask # wordsMasks),
                calls2)))"

text \<open>\<open>padArrays\<close>: \<open>Math.max(...lengths)\<close> of no lengths is \<open>-Infinity\<close>, but then there is no
  row to pad; for at least one row the fold below is the maximum.\<close>

definition padArrays :: "'a \<Rightarrow> 'a list list \<Rightarrow> 'a list list" where
  "padArrays pad arrays =
     (let maxLength = foldr max (map length arrays) 0
      in map (\<lambda>arr. arr @ replicate (maxLength - length arr) pad) arrays)"

text \<open>\<open>padSpanArrays\<close>: a span is a pair, so \<open>spanDim\<close> is \<open>2\<close> and the padding entry is the
  pair of two \<open>PAD_VALUE\<close>s.\<close>

definition padSpanArrays :: "(nat \<times> nat) list list \<Rightarrow> (nat \<times> nat) list list" where
  "padSpanArrays arrays = padArrays (nat PAD_VALUE, nat PAD_VALUE) arrays"

text \<open>A cell of a padded span mask: a boolean of \<open>buildSpans\<close>, or the number \<open>PAD_VALUE\<close>
  that \<open>padArrays\<close> fills in (\<open>PAD_VALUE as T\<close> is still the number \<open>0\<close>).\<close>

datatype maskCell = MaskFlag bool | MaskNumber int

record ProcessorBatch =
  inputsIds :: "int list list"
  attentionMasks :: "int list list"
  wordsMasks :: "int list list"
  textLengths :: "nat list"
  spanIdxs :: "(nat \<times> nat) list list"
  spanMasks :: "maskCell list list"
  idToClass :: "nat \<rightharpoonup> string"
  batchTokens :: "string list list"
  batchWordsStartIdx :: "nat list list"
  batchWordsEndIdx :: "nat list list"

definition prepareBatch ::
  "nat \<Rightarrow> GLiNER1Tokenizer \<Rightarrow> string list \<Rightarrow> string list \<Rightarrow> Calls
   \<Rightarrow> (ProcessorBatch \<times> Calls) option" where
  "prepareBatch maxWidth tokenizer texts entities calls =
     (case tokenizeTexts texts of
        None \<Rightarrow> None
      | Some (tokens, starts, ends) \<Rightarrow>
          (case buildInputSequences tokens entities of
             (inputTokens, lengths, promptLengths) \<Rightarrow>
               (case encodeInputs tokenizer inputTokens promptLengths calls of
                  ((ids, attention, words), calls') \<Rightarrow>
                    (case buildSpans maxWidth tokens of
                       (spanIdx, spanMask) \<Rightarrow>
                         Some (\<lparr>inputsIds = padArrays PAD_VALUE ids,
                                 attentionMasks = padArrays PAD_VALUE attention,
                                 wordsMasks = padArrays PAD_VALUE words,
                                 textLengths = lengths,
                                 spanIdxs = padSpanArrays spanIdx,
                                 spanMasks = padArrays (MaskNumber PAD_VALUE)
                                               (map (map MaskFlag) spanMask),
                                 idToClass = buildIdToClass entities,
                                 batchTokens = tokens,
                                 batchWordsStartIdx = starts,
                                 batchWordsEndIdx = ends\<rparr>,
                               calls')))))"

text \<open>The number of sub-tokens that \<open>encodeInputs\<close> keeps of a word: those between the
  first and the last id that the tokenizer returns.\<close>

definition subTokens :: "GLiNER1Tokenizer \<Rightarrow> string \<Rightarrow> nat" where
  "subTokens tokenizer w = length (butlast (tl (encode tokenizer w)))"

text \<open>Two tokenizers and the initial call counts, for concrete runs: one wraps a single
  sub-token (the length of the word) in the two special tokens, the other returns the two
  special tokens alone.\<close>

definition lengthTokenizer :: GLiNER1Tokenizer where
  "lengthTokenizer = \<lparr>encode = (\<lambda>w. [1, int (length w), 2]), sep_token_id = 2\<rparr>"

definition specialsOnlyTokenizer :: GLiNER1Tokenizer where
  "specialsOnlyTokenizer = \<lparr>encode = (\<lambda>w. [1, 2]), sep_token_id = 2\<rparr>"

definition noCalls :: Calls where
  "noCalls = \<lparr>tokenizerCalls = 0, engineCalls = 0\<rparr>"

section \<open>GLiNER1 runtime\<close>

text \<open>A tensor is its data with its dimensions; the feeds are the six named input tensors.
  The inference session is a parameter: it maps the feeds to named output arrays.\<close>

record Feeds =
  input_ids :: "int list \<times> nat list"
  attention_mask :: "int list \<times> nat list"
  words_mask :: "int list \<times> nat list"
  text_lengths :: "int list \<times> nat list"
  span_idx :: "int list \<times> nat list"
  span_mask :: "maskCell list \<times> nat list"

type_synonym Session = "Feeds \<Rightarrow> (string \<times> real list) list"

definition ONNX_OUTPUT_LOGITS :: string where
  "ONNX_OUTPUT_LOGITS = ''logits''"

text \<open>\<open>arrays[0]?.length ?? 0\<close>\<close>

definition firstLength :: "'a list list \<Rightarrow> nat" where
  "firstLength arrays = (case arrays of [] \<Rightarrow> 0 | arr # _ \<Rightarrow> length arr)"

definition buildTensors :: "ProcessorBatch \<Rightarrow> Feeds" where
  "buildTensors batch =
     (let batchSize = length (inputsIds batch);
          tokenCount = firstLength (inputsIds batch);
          spanCount = firstLength (spanIdxs batch)
      in \<lparr>input_ids = (concat (inputsIds batch), [batchSize, tokenCount]),
           attention_mask = (concat (attentionMasks batch), [batchSize, tokenCount]),
           words_mask = (concat (wordsMasks batch), [batchSize, tokenCount]),
           text_lengths = (map int (textLengths batch), [batchSize, 1]),
           span_idx = (concat (map (\<lambda>p. [int (fst p), int (snd p)]) (concat (spanIdxs batch))),
                       [batchSize, spanCount, 2]),
           span_mask = (concat (spanMasks batch), [batchSize, spanCount])\<rparr>)"

text \<open>\<open>convertToEntities\<close>\<close>

definition convertToEntities :: "RawSpan list \<Rightarrow> Entity list" where
  "convertToEntities spans =
     map (\<lambda>sp. \<lparr>ent_text = span_text sp, ent_label = span_label sp, ent_start = span_start sp,
                 ent_end = span_end sp, ent_score = span_score sp\<rparr>) spans"

text \<open>
  \<open>runInference\<close>: one call of the session between \<open>prepareBatch\<close> and \<open>decode\<close>. Its callers
  pass at least one text, so \<open>Math.max(...batch.textLengths)\<close> is the maximum that the fold
  computes. The logits of the session are finite. The result is \<open>None\<close> if the word splitter
  does not return.
\<close>

definition runInference ::
  "(real \<Rightarrow> number) \<Rightarrow> nat \<Rightarrow> GLiNER1Tokenizer \<Rightarrow> Session \<Rightarrow> string list \<Rightarrow> string list
   \<Rightarrow> real \<Rightarrow> Calls \<Rightarrow> ((error + RawSpan list list) \<times> Calls) option" where
  "runInference approx maxWidth tokenizer session texts entities threshold calls =
     (case prepareBatch maxWidth tokenizer texts entities calls of
        None \<Rightarrow> None
      | Some (batch, calls1) \<Rightarrow>
          (let feeds = buildTensors batch;
               results = session feeds;
               calls2 = calls1\<lparr>engineCalls := engineCalls calls1 + 1\<rparr>
           in case map_of results ONNX_OUTPUT_LOGITS of
                None \<Rightarrow> Some (Inl (ConfigurationError ''Model output missing logits''), calls2)
              | Some logits \<Rightarrow>
                  (let batchSize = length (batchTokens batch);
                       inputLength = foldr max (textLengths batch) 0;
                       batchIds = [0..<batchSize]
                   in Some (decode approx maxWidth batchSize inputLength (length entities) texts
                              batchIds (batchWordsStartIdx batch) (batchWordsEndIdx batch)
                              (idToClass batch) (map Fin logits)
                              \<lparr>opt_threshold = Some threshold, opt_flatNer = None,
                                opt_multiLabel = None\<rparr>,
                            calls2))))"

text \<open>\<open>GLiNER1ONNXRuntime.extractEntities\<close> and \<open>extractEntitiesBatch\<close>; the option argument is
  \<open>options.threshold\<close>.\<close>

definition gliner1_extractEntities ::
  "(real \<Rightarrow> number) \<Rightarrow> nat \<Rightarrow> GLiNER1Tokenizer \<Rightarrow> Session \<Rightarrow> string \<Rightarrow> string list
   \<Rightarrow> real option \<Rightarrow> Calls \<Rightarrow> ((error + Entity list) \<times> Calls) option" where
  "gliner1_extractEntities approx maxWidth tokenizer session text labels optThreshold calls =
     (let threshold = (case optThreshold of None \<Rightarrow> DEFAULT_THRESHOLD | Some t \<Rightarrow> t)
      in if length (trim text) = 0 then Some (Inl (ValidationError ''Text cannot be empty''), calls)
         else if length labels = 0
           then Some (Inl (ValidationError ''Labels cannot be empty''), calls)
         else
           (case runInference approx maxWidth tokenizer session [text] labels threshold calls of
              None \<Rightarrow> None
            | Some (Inl e, calls') \<Rightarrow> Some (Inl e, calls')
            | Some (Inr rawResult, calls') \<Rightarrow>
                Some (Inr (convertToEntities (case rawResult of [] \<Rightarrow> [] | r # _ \<Rightarrow> r)),
                      calls')))"

definition gliner1_extractEntitiesBatch ::
  "(real \<Rightarrow> number) \<Rightarrow> nat \<Rightarrow> GLiNER1Tokenizer \<Rightarrow> Session \<Rightarrow> string list \<Rightarrow> string list
   \<Rightarrow> real option \<Rightarrow> Calls \<Rightarrow> ((error + Entity list list) \<times> Calls) option" where
  "gliner1_extractEntitiesBatch approx maxWidth tokenizer session texts labels optThreshold calls =
     (let threshold = (case optThreshold of None \<Rightarrow> DEFAULT_THRESHOLD | Some t \<Rightarrow> t)
      in if length texts = 0 then Some (Inl (ValidationError ''Texts cannot be empty''), calls)
         else if length labels = 0
           then Some (Inl (ValidationError ''Labels cannot be empty''), calls)
         else
           (case runInference approx maxWidth tokenizer session texts labels threshold calls of
              None \<Rightarrow> None
            | Some (Inl e, calls') \<Rightarrow> Some (Inl e, calls')
            | Some (Inr rawResult, calls') \<Rightarrow>
                Some (Inr (map convertToEntities rawResult), calls')))"

text \<open>Two sessions for concrete runs: one returns \<open>logits\<close> that are all \<open>0\<close>, one score
  per span and label of the feeds, the other returns no output.\<close>

definition zeroLogitsSession :: "nat \<Rightarrow> Session" where
  "zeroLogitsSession labelCount feeds =
     [(''logits'', replicate (length (fst (span_mask feeds)) * labelCount) 0)]"

definition noOutputSession :: Session where
  "noOutputSession feeds = []"

section \<open>The span decoder as the claim words it\<close>




section \<open>The span lattice as the specification words it\<close>

text \<open>Written from the specification, for comparison with the two functions above: for each
  start in \<open>[0, n)\<close>, for each width in \<open>[0, w)\<close>, the pair \<open>(start, min (start + width) (n - 1))\<close>,
  valid unless \<open>start + width \<ge> n\<close>.\<close>

definition specLattice :: "nat \<Rightarrow> nat \<Rightarrow> ((nat \<times> nat) \<times> bool) list" where
  "specLattice n w =
     loopNest n w (\<lambda>start width. ((start, min (start + width) (n - 1)), \<not> start + width \<ge> n))"

section \<open>Properties of JavaScript numbers\<close>

































lemma nonNegative_iff: "nonNegative x = (x = PosInf \<or> (\<exists>r. x = Fin r \<and> 0 \<le> r))"
  by (cases x) (simp_all add: nonNegative_def)

lemma atLeastOne_iff: "atLeastOne x = (x = PosInf \<or> (\<exists>r. x = Fin r \<and> 1 \<le> r))"
  by (cases x) (simp_all add: atLeastOne_def)




lemma atLeastOne_nonNegative: "atLeastOne x \<Longrightarrow> nonNegative x"
  by (auto simp: atLeastOne_iff nonNegative_iff)








section \<open>Properties of the span lattices\<close>

lemma length_loopNest: "length (loopNest n w f) = n * w"
  by (induction n) (simp_all add: loopNest_def)

lemma loopNest_Suc: "loopNest (Suc n) w f = loopNest n w f @ map (f n) [0..<w]"
  by (simp add: loopNest_def)

lemma nth_loopNest: "i < n \<Longrightarrow> j < w \<Longrightarrow> loopNest n w f ! (i * w + j) = f i j"
proof (induction n)
  case 0
  then show ?case by simp
next
  case (Suc n)
  show ?case
  proof (cases "i < n")
    case True
    have "i * w + j < Suc i * w" using Suc.prems(2) by simp
    also have "Suc i * w \<le> n * w" using True by (simp only: mult_le_mono1 Suc_leI)
    finally have "i * w + j < length (loopNest n w f)" by (simp add: length_loopNest)
    then show ?thesis using Suc.IH True Suc.prems(2)
      by (simp add: loopNest_Suc nth_append)
  next
    case False
    then have "i = n" using Suc.prems(1) by simp
    then show ?thesis using Suc.prems(2)
      by (simp add: loopNest_Suc nth_append length_loopNest)
  qed
qed

lemma loopNest_index:
  assumes "start < (n::nat)" and "width < (w::nat)"
  shows "start * w + width < n * w"
proof -
  have "start * w + width < Suc start * w" using assms(2) by simp
  also have "Suc start * w \<le> n * w" using assms(1) by (simp only: mult_le_mono1 Suc_leI)
  finally show ?thesis .
qed

text \<open>
  C1 (amended). For every sequence length \<open>n\<close> and maximum width \<open>w\<close>, both lattices hold
  exactly \<open>n * w\<close> entries in the order "for each start, for each width": the entry of
  \<open>(start, width)\<close> stands at index \<open>start * w + width\<close>. \<open>buildSpans\<close> puts the pair
  \<open>(start, min (start + width) (n - 1))\<close> there, with one mask entry per pair that marks the
  pair valid whenever \<open>start + width < n\<close>; \<open>generateSpans\<close> puts \<open>(start, start + width)\<close>
  there when \<open>start + width < n\<close> and the pair \<open>(0, 0)\<close> otherwise. For \<open>n = 0\<close> both are
  empty.
\<close>

theorem C1_span_lattice:
  "length (fst (buildSpansRow w n)) = n * w
   \<and> length (snd (buildSpansRow w n)) = n * w
   \<and> numSpans (generateSpans n w) = n * w
   \<and> length (spanStart (generateSpans n w)) = n * w
   \<and> length (spanEnd (generateSpans n w)) = n * w
   \<and> (\<forall>start<n. \<forall>width<w.
          fst (buildSpansRow w n) ! (start * w + width) = (start, min (start + width) (n - 1))
        \<and> (start + width < n \<longrightarrow> snd (buildSpansRow w n) ! (start * w + width))
        \<and> (spanStart (generateSpans n w) ! (start * w + width),
            spanEnd (generateSpans n w) ! (start * w + width))
             = (if start + width < n then (start, start + width) else (0, 0)))
   \<and> buildSpansRow w 0 = ([], [])
   \<and> generateSpans 0 w = \<lparr>spanStart = [], spanEnd = [], numSpans = 0\<rparr>"
proof -
  have len: "length (fst (buildSpansRow w n)) = n * w" "length (snd (buildSpansRow w n)) = n * w"
    "numSpans (generateSpans n w) = n * w" "length (spanStart (generateSpans n w)) = n * w"
    "length (spanEnd (generateSpans n w)) = n * w"
    by (simp_all add: buildSpansRow_def generateSpans_def Let_def length_loopNest)
  have cell: "fst (buildSpansRow w n) ! (start * w + width) = (start, min (start + width) (n - 1))
        \<and> (start + width < n \<longrightarrow> snd (buildSpansRow w n) ! (start * w + width))
        \<and> (spanStart (generateSpans n w) ! (start * w + width),
            spanEnd (generateSpans n w) ! (start * w + width))
             = (if start + width < n then (start, start + width) else (0, 0))"
    if a: "start < n" "width < w" for start width
  proof -
    note idx = loopNest_index[OF a]
    have b: "fst (buildSpansRow w n) ! (start * w + width) = (start, min (start + width) (n - 1))"
      using idx a
      by (simp add: buildSpansRow_def Let_def length_loopNest nth_loopNest buildSpansCell_def)
    have m: "start + width < n \<Longrightarrow> snd (buildSpansRow w n) ! (start * w + width)"
      using idx a
      by (simp add: buildSpansRow_def Let_def length_loopNest nth_loopNest buildSpansCell_def)
    have g: "(spanStart (generateSpans n w) ! (start * w + width),
              spanEnd (generateSpans n w) ! (start * w + width))
             = (if start + width < n then (start, start + width) else (0, 0))"
      using idx a
      by (simp add: generateSpans_def Let_def length_loopNest nth_loopNest generateSpansCell_def)
    show ?thesis using b m g by blast
  qed
  have e: "buildSpansRow w 0 = ([], [])"
    by (simp add: buildSpansRow_def loopNest_def)
  have e2: "generateSpans 0 w = \<lparr>spanStart = [], spanEnd = [], numSpans = 0\<rparr>"
    by (simp add: generateSpans_def loopNest_def)
  show ?thesis
    using len cell e e2 by (intro conjI allI impI) blast+
qed

theorem C1_span_lattice_witness:
  "fst (buildSpansRow 2 3) ! 5 = (2, 2)
   \<and> snd (buildSpansRow 2 3) ! 1
   \<and> (spanStart (generateSpans 3 2) ! 5, spanEnd (generateSpans 3 2) ! 5) = (0, 0)
   \<and> length (fst (buildSpansRow 2 3)) = 6
   \<and> length (fst (buildSpansRow 0 3)) = 0"
proof -
  note t = C1_span_lattice[of 2 3]
  note c = t[THEN conjunct2, THEN conjunct2, THEN conjunct2, THEN conjunct2, THEN conjunct2,
             THEN conjunct1]
  have a: "(2::nat) < 3" "(1::nat) < 2" "(0::nat) < 3" by simp_all
  note c21 = c[rule_format, OF a(1) a(2)]
  note c01 = c[rule_format, OF a(3) a(2)]
  have w1: "fst (buildSpansRow 2 3) ! 5 = (2, 2)" using c21[THEN conjunct1] by simp
  have w2: "snd (buildSpansRow 2 3) ! 1" using c01[THEN conjunct2, THEN conjunct1] by simp
  have w3: "(spanStart (generateSpans 3 2) ! 5, spanEnd (generateSpans 3 2) ! 5) = (0, 0)"
    using c21[THEN conjunct2, THEN conjunct2] by simp
  have w4: "length (fst (buildSpansRow 2 3)) = 6" using t[THEN conjunct1] by simp
  have w5: "length (fst (buildSpansRow 0 3)) = 0"
    using C1_span_lattice[of 0 3, THEN conjunct1] by simp
  show ?thesis using w1 w2 w3 w4 w5 by (intro conjI)
qed

text \<open>
  The claim as stated fails at \<open>n = 2\<close>, \<open>w = 2\<close>: \<open>buildSpans\<close> marks every pair valid, also
  the pair of \<open>start = 1\<close>, \<open>width = 1\<close> where \<open>start + width \<ge> n\<close>, and \<open>generateSpans\<close>
  emits \<open>(0, 0)\<close> there instead of \<open>(1, 1)\<close>.
\<close>

theorem C1_counterexample:
  "zip (fst (buildSpansRow 2 2)) (snd (buildSpansRow 2 2)) \<noteq> specLattice 2 2
   \<and> snd (buildSpansRow 2 2) = [True, True, True, True]
   \<and> map snd (specLattice 2 2) = [True, True, True, False]
   \<and> zip (spanStart (generateSpans 2 2)) (spanEnd (generateSpans 2 2)) = [(0, 0), (0, 1), (1, 1), (0, 0)]
   \<and> map fst (specLattice 2 2) = [(0, 0), (0, 1), (1, 1), (1, 1)]"
  by (simp add: buildSpansRow_def generateSpans_def specLattice_def loopNest_def
      buildSpansCell_def generateSpansCell_def Let_def upt_rec)

section \<open>Properties of the greedy loops\<close>

lemma greedyStep_keepStep: "greedyStep f m = keepStep (spansConflict f m)"
  by (intro ext) (simp add: greedyStep_def keepStep_def Let_def)

lemma dedupStep_keepStep: "dedupStep = keepStep entityConflict"
  by (intro ext) (simp add: dedupStep_def keepStep_def Let_def)

lemma keepStep_cases:
  "keepStep c acc x = (if \<exists>e\<in>set acc. c x e then acc else acc @ [x])"
  by (simp add: keepStep_def list_ex_iff)

lemma keep_sorted_wrt:
  "sorted_wrt (\<lambda>e x. \<not> c x e) acc \<Longrightarrow> sorted_wrt (\<lambda>e x. \<not> c x e) (foldl (keepStep c) acc xs)"
proof (induction xs arbitrary: acc)
  case Nil then show ?case by simp
next
  case (Cons x xs)
  have "sorted_wrt (\<lambda>e x. \<not> c x e) (keepStep c acc x)"
    using Cons.prems by (auto simp: keepStep_cases sorted_wrt_append)
  then show ?case using Cons.IH by simp
qed

lemma keep_accept_all:
  "sorted_wrt (\<lambda>e x. \<not> c x e) (acc @ xs) \<Longrightarrow> foldl (keepStep c) acc xs = acc @ xs"
proof (induction xs arbitrary: acc)
  case Nil then show ?case by simp
next
  case (Cons x xs)
  have "keepStep c acc x = acc @ [x]"
    using Cons.prems by (auto simp: keepStep_cases sorted_wrt_append)
  then show ?case using Cons.IH[of "acc @ [x]"] Cons.prems by simp
qed

lemma keep_subseq:
  "\<exists>ys. foldl (keepStep c) acc xs = acc @ ys \<and> subseq ys xs"
proof (induction xs arbitrary: acc)
  case Nil then show ?case by simp
next
  case (Cons x xs)
  show ?case
  proof (cases "\<exists>e\<in>set acc. c x e")
    case True
    then show ?thesis using Cons.IH[of acc] by (auto simp: keepStep_cases)
  next
    case False
    obtain ys where "foldl (keepStep c) (acc @ [x]) xs = (acc @ [x]) @ ys" "subseq ys xs"
      using Cons.IH[of "acc @ [x]"] by blast
    then have "foldl (keepStep c) acc (x # xs) = acc @ (x # ys) \<and> subseq (x # ys) (x # xs)"
      using False by (simp add: keepStep_cases)
    then show ?thesis by blast
  qed
qed

lemma keep_split:
  "\<exists>later. subseq later post \<and>
     foldl (keepStep c) [] (pre @ x # post) =
       foldl (keepStep c) [] pre
         @ (if \<exists>e\<in>set (foldl (keepStep c) [] pre). c x e then [] else [x]) @ later"
proof -
  let ?A = "foldl (keepStep c) [] pre"
  obtain later where l: "foldl (keepStep c) (keepStep c ?A x) post = keepStep c ?A x @ later"
      "subseq later post"
    using keep_subseq[of c "keepStep c ?A x" post] by blast
  have "foldl (keepStep c) [] (pre @ x # post) = keepStep c ?A x @ later"
    using l(1) by simp
  then have "foldl (keepStep c) [] (pre @ x # post) =
       ?A @ (if \<exists>e\<in>set ?A. c x e then [] else [x]) @ later"
    by (simp add: keepStep_cases)
  then show ?thesis using l(2) by blast
qed

lemma keep_sorted_key:
  "sorted (map g (acc @ xs)) \<Longrightarrow> sorted (map g (foldl (keepStep c) acc xs))"
proof (induction xs arbitrary: acc)
  case Nil then show ?case by simp
next
  case (Cons x xs)
  have "sorted (map g (keepStep c acc x @ xs))"
    using Cons.prems by (auto simp: keepStep_cases sorted_append)
  then show ?case using Cons.IH by simp
qed

lemma keep_rejected:
  fixes g :: "'a \<Rightarrow> 'k::linorder"
  shows "sorted (map g (acc @ xs)) \<Longrightarrow> x \<in> set xs \<Longrightarrow> x \<notin> set (foldl (keepStep c) acc xs)
   \<Longrightarrow> \<exists>e\<in>set (foldl (keepStep c) acc xs). c x e \<and> g e \<le> g x"
proof (induction xs arbitrary: acc)
  case Nil then show ?case by simp
next
  case (Cons y ys)
  obtain zs where zs: "foldl (keepStep c) (keepStep c acc y) ys = keepStep c acc y @ zs"
    using keep_subseq by blast
  show ?case
  proof (cases "x = y")
    case True
    then have "x \<notin> set (keepStep c acc y)" using Cons.prems(3) zs by auto
    then have "\<exists>e\<in>set acc. c x e" using True by (auto simp: keepStep_cases split: if_splits)
    then obtain e where e: "e \<in> set acc" "c x e" by blast
    have "g e \<le> g x" using Cons.prems(1) e(1) True by (auto simp: sorted_append)
    moreover have "set acc \<subseteq> set (foldl (keepStep c) acc (y # ys))"
      using zs by (auto simp: keepStep_cases)
    ultimately show ?thesis using e by blast
  next
    case False
    then have "x \<in> set ys" using Cons.prems(2) by simp
    moreover have "sorted (map g (keepStep c acc y @ ys))"
      using Cons.prems(1) by (auto simp: keepStep_cases sorted_append)
    ultimately show ?thesis using Cons.IH[of "keepStep c acc y"] Cons.prems(3) by simp
  qed
qed

subsection \<open>Stable sorting\<close>

lemma sorted_wrt_insort_key:
  "sorted_wrt R xs \<Longrightarrow> \<forall>y\<in>set xs. R a y \<and> R y a \<Longrightarrow> sorted_wrt R (insort_key k a xs)"
  by (induction xs) (auto simp: set_insort_key)

lemma sorted_wrt_sort_key:
  "(\<And>a b. R a b = R b a) \<Longrightarrow> sorted_wrt R xs \<Longrightarrow> sorted_wrt R (sort_key k xs)"
proof (induction xs)
  case Nil then show ?case by simp
next
  case (Cons x xs)
  have "sorted_wrt R (sort_key k xs)" using Cons by simp
  moreover have "\<forall>y\<in>set (sort_key k xs). R x y \<and> R y x" using Cons.prems by auto
  ultimately show ?case by (simp add: sorted_wrt_insort_key)
qed

lemma sort_key_sandwich:
  assumes "sorted (map g xs)"
  shows "sort_key k (sort_key g (sort_key k xs)) = sort_key k xs"
proof (rule properties_for_sort_key)
  show "mset (sort_key k xs) = mset (sort_key g (sort_key k xs))" by simp
  show "sorted (map k (sort_key k xs))" by simp
  fix a assume "a \<in> set (sort_key k xs)"
  have s: "sorted (map g (filter (\<lambda>x. k a = k x) xs))"
    using assms by (simp add: sorted_filter)
  have "filter (\<lambda>x. k a = k x) (sort_key g (sort_key k xs))
        = sort_key g (filter (\<lambda>x. k a = k x) (sort_key k xs))"
    by (simp add: filter_sort)
  also have "filter (\<lambda>x. k a = k x) (sort_key k xs) = filter (\<lambda>x. k a = k x) xs"
    using sort_key_stable[of k "k a" xs] by (simp add: eq_commute)
  also have "sort_key g (filter (\<lambda>x. k a = k x) xs) = filter (\<lambda>x. k a = k x) xs"
    using s by (rule sort_key_id_if_sorted)
  finally show "filter (\<lambda>x. k a = k x) (sort_key k xs)
        = filter (\<lambda>x. k a = k x) (sort_key g (sort_key k xs))"
    using sort_key_stable[of k "k a" xs] by (simp add: eq_commute)
qed

section \<open>Properties of the overlap resolver\<close>

lemma spansOverlap_sym: "spansOverlap s1 e1 s2 e2 n m = spansOverlap s2 e2 s1 e1 n m"
  by (auto simp: spansOverlap_def)

lemma spansConflict_sym: "spansConflict f m a b = spansConflict f m b a"
  unfolding spansConflict_def using spansOverlap_sym by blast

lemma entityConflict_sym: "entityConflict a b = entityConflict b a"
  by (auto simp: entityConflict_def)

text \<open>
  C3. The overlap resolver \<open>greedySearch\<close>, for every candidate list and both flags.
  \<^item> The candidates are first sorted by score descending, stably.
  \<^item> Greedy acceptance: wherever the sorted list splits as \<open>pre @ x # post\<close>, the selection
    is the selection made from \<open>pre\<close>, followed by \<open>x\<close> exactly when \<open>x\<close> conflicts with
    none of the entities selected from \<open>pre\<close>, followed by candidates of \<open>post\<close>.
  \<^item> The conflict test is \<open>spansOverlap\<close> with nesting allowed iff flat-NER is disabled, and
    its rules apply in order: identical spans conflict iff multi-label is off; of the
    remaining pairs the disjoint ones (\<open>s1 > e2\<close> or \<open>s2 > e1\<close>) do not conflict; of the
    remaining pairs the fully nested ones do not conflict when nesting is allowed; every
    other pair conflicts.
  \<^item> The result is the selection sorted by start offset ascending, stably.
\<close>

theorem C3_overlap_resolver:
  "sorted (map (\<lambda>s. - span_score s) (sortByScoreDesc spans))
   \<and> mset (sortByScoreDesc spans) = mset spans
   \<and> filter (\<lambda>s. span_score s = k) (sortByScoreDesc spans) = filter (\<lambda>s. span_score s = k) spans
   \<and> (sortByScoreDesc spans = pre @ x # post \<longrightarrow>
        (\<exists>later. subseq later post \<and>
           greedySelected spans flatNer multiLabel =
             foldl (greedyStep flatNer multiLabel) [] pre
             @ (if \<exists>e\<in>set (foldl (greedyStep flatNer multiLabel) [] pre).
                     spansConflict flatNer multiLabel x e
                then [] else [x])
             @ later))
   \<and> spansConflict flatNer multiLabel a b =
        spansOverlap (span_start a) (span_end a) (span_start b) (span_end b) (\<not> flatNer) multiLabel
   \<and> (s1 = s2 \<and> e1 = e2 \<longrightarrow> spansOverlap s1 e1 s2 e2 allowNested multiLabel = (\<not> multiLabel))
   \<and> (\<not> (s1 = s2 \<and> e1 = e2) \<and> (s1 > e2 \<or> s2 > e1)
        \<longrightarrow> \<not> spansOverlap s1 e1 s2 e2 allowNested multiLabel)
   \<and> (\<not> (s1 = s2 \<and> e1 = e2) \<and> allowNested
        \<and> ((s1 \<le> s2 \<and> e1 \<ge> e2) \<or> (s2 \<le> s1 \<and> e2 \<ge> e1))
        \<longrightarrow> \<not> spansOverlap s1 e1 s2 e2 allowNested multiLabel)
   \<and> (\<not> (s1 = s2 \<and> e1 = e2) \<and> \<not> (s1 > e2 \<or> s2 > e1)
        \<and> \<not> (allowNested \<and> ((s1 \<le> s2 \<and> e1 \<ge> e2) \<or> (s2 \<le> s1 \<and> e2 \<ge> e1)))
        \<longrightarrow> spansOverlap s1 e1 s2 e2 allowNested multiLabel)
   \<and> sorted (map span_start (greedySearch spans flatNer multiLabel))
   \<and> mset (greedySearch spans flatNer multiLabel) = mset (greedySelected spans flatNer multiLabel)
   \<and> filter (\<lambda>s. span_start s = k') (greedySearch spans flatNer multiLabel)
       = filter (\<lambda>s. span_start s = k') (greedySelected spans flatNer multiLabel)"
proof -
  have srt: "sorted (map (\<lambda>s. - span_score s) (sortByScoreDesc spans))
     \<and> mset (sortByScoreDesc spans) = mset spans"
    by (simp add: sortByScoreDesc_def)
  have stab: "filter (\<lambda>s. span_score s = k) (sortByScoreDesc spans)
      = filter (\<lambda>s. span_score s = k) spans"
    using sort_key_stable[of "\<lambda>s. - span_score s" "- k" spans]
    by (simp add: sortByScoreDesc_def)
  have loop: "sortByScoreDesc spans = pre @ x # post \<longrightarrow>
        (\<exists>later. subseq later post \<and>
           greedySelected spans flatNer multiLabel =
             foldl (greedyStep flatNer multiLabel) [] pre
             @ (if \<exists>e\<in>set (foldl (greedyStep flatNer multiLabel) [] pre).
                     spansConflict flatNer multiLabel x e
                then [] else [x])
             @ later)"
    using keep_split[of post "spansConflict flatNer multiLabel" pre x]
    by (simp add: greedySelected_def greedyStep_keepStep)
  have pred: "(s1 = s2 \<and> e1 = e2 \<longrightarrow> spansOverlap s1 e1 s2 e2 allowNested multiLabel = (\<not> multiLabel))
   \<and> (\<not> (s1 = s2 \<and> e1 = e2) \<and> (s1 > e2 \<or> s2 > e1)
        \<longrightarrow> \<not> spansOverlap s1 e1 s2 e2 allowNested multiLabel)
   \<and> (\<not> (s1 = s2 \<and> e1 = e2) \<and> allowNested
        \<and> ((s1 \<le> s2 \<and> e1 \<ge> e2) \<or> (s2 \<le> s1 \<and> e2 \<ge> e1))
        \<longrightarrow> \<not> spansOverlap s1 e1 s2 e2 allowNested multiLabel)
   \<and> (\<not> (s1 = s2 \<and> e1 = e2) \<and> \<not> (s1 > e2 \<or> s2 > e1)
        \<and> \<not> (allowNested \<and> ((s1 \<le> s2 \<and> e1 \<ge> e2) \<or> (s2 \<le> s1 \<and> e2 \<ge> e1)))
        \<longrightarrow> spansOverlap s1 e1 s2 e2 allowNested multiLabel)"
    unfolding spansOverlap_def by auto
  have fin: "sorted (map span_start (greedySearch spans flatNer multiLabel))
   \<and> mset (greedySearch spans flatNer multiLabel) = mset (greedySelected spans flatNer multiLabel)"
    by (simp add: greedySearch_def)
  have fstab: "filter (\<lambda>s. span_start s = k') (greedySearch spans flatNer multiLabel)
       = filter (\<lambda>s. span_start s = k') (greedySelected spans flatNer multiLabel)"
    by (simp add: greedySearch_def sort_key_stable)
  show ?thesis
    using srt stab loop pred fin fstab spansConflict_def[of flatNer multiLabel a b] by blast
qed

theorem C3_overlap_resolver_witness:
  "sortByScoreDesc
     [\<lparr>span_text = ''a b c d'', span_start = 0, span_end = 7, span_label = ''x'', span_score = 0.6\<rparr>,
      \<lparr>span_text = ''b'', span_start = 2, span_end = 3, span_label = ''x'', span_score = 0.9\<rparr>,
      \<lparr>span_text = ''e'', span_start = 8, span_end = 9, span_label = ''y'', span_score = 0.7\<rparr>]
   = [\<lparr>span_text = ''b'', span_start = 2, span_end = 3, span_label = ''x'', span_score = 0.9\<rparr>,
      \<lparr>span_text = ''e'', span_start = 8, span_end = 9, span_label = ''y'', span_score = 0.7\<rparr>]
     @ \<lparr>span_text = ''a b c d'', span_start = 0, span_end = 7, span_label = ''x'', span_score = 0.6\<rparr> # []
   \<and> greedySelected
     [\<lparr>span_text = ''a b c d'', span_start = 0, span_end = 7, span_label = ''x'', span_score = 0.6\<rparr>,
      \<lparr>span_text = ''b'', span_start = 2, span_end = 3, span_label = ''x'', span_score = 0.9\<rparr>,
      \<lparr>span_text = ''e'', span_start = 8, span_end = 9, span_label = ''y'', span_score = 0.7\<rparr>]
     True False
   = [\<lparr>span_text = ''b'', span_start = 2, span_end = 3, span_label = ''x'', span_score = 0.9\<rparr>,
      \<lparr>span_text = ''e'', span_start = 8, span_end = 9, span_label = ''y'', span_score = 0.7\<rparr>]
   \<and> spansOverlap 0 7 2 3 False False \<and> \<not> spansOverlap 0 7 2 3 True False
   \<and> \<not> spansOverlap 2 3 8 9 False False \<and> spansOverlap 2 3 2 3 True False
   \<and> \<not> spansOverlap 2 3 2 3 False True"
  using C3_overlap_resolver [of
     "[\<lparr>span_text = ''a b c d'', span_start = 0, span_end = 7, span_label = ''x'', span_score = 0.6\<rparr>,
      \<lparr>span_text = ''b'', span_start = 2, span_end = 3, span_label = ''x'', span_score = 0.9\<rparr>,
      \<lparr>span_text = ''e'', span_start = 8, span_end = 9, span_label = ''y'', span_score = 0.7\<rparr>]"
     "0.9"
     "[\<lparr>span_text = ''b'', span_start = 2, span_end = 3, span_label = ''x'', span_score = 0.9\<rparr>,
      \<lparr>span_text = ''e'', span_start = 8, span_end = 9, span_label = ''y'', span_score = 0.7\<rparr>]"
     "\<lparr>span_text = ''a b c d'', span_start = 0, span_end = 7, span_label = ''x'', span_score = 0.6\<rparr>"
     "[]" True False]
  by (simp add: sortByScoreDesc_def greedySelected_def greedyStep_def spansConflict_def
        spansOverlap_def Let_def)

text \<open>
  C7. The overlap resolver is idempotent: run on its own output, with the same flags, it
  returns that output again, as a list and hence as a set.
\<close>

theorem C7_idempotent:
  "greedySearch (greedySearch spans flatNer multiLabel) flatNer multiLabel
     = greedySearch spans flatNer multiLabel
   \<and> set (greedySearch (greedySearch spans flatNer multiLabel) flatNer multiLabel)
     = set (greedySearch spans flatNer multiLabel)"
proof -
  let ?g = "\<lambda>s. - span_score s"
  let ?c = "spansConflict flatNer multiLabel"
  let ?R = "\<lambda>e x. \<not> ?c x e"
  let ?sel = "greedySelected spans flatNer multiLabel"
  have sym: "\<And>a b. ?R a b = ?R b a" using spansConflict_sym by blast
  have c1: "sorted_wrt ?R ?sel"
    unfolding greedySelected_def greedyStep_keepStep by (rule keep_sorted_wrt) simp
  have g1: "sorted (map ?g ?sel)"
    unfolding greedySelected_def sortByScoreDesc_def greedyStep_keepStep
    by (rule keep_sorted_key) simp
  have c1': "sorted_wrt ?R (sort_key span_start ?sel)"
    using sym c1 by (rule sorted_wrt_sort_key)
  have c2: "sorted_wrt ?R (sort_key ?g (sort_key span_start ?sel))"
    using sym c1' by (rule sorted_wrt_sort_key)
  have "greedySelected (sort_key span_start ?sel) flatNer multiLabel
          = sort_key ?g (sort_key span_start ?sel)"
    unfolding greedySelected_def[of "sort_key span_start ?sel"] sortByScoreDesc_def
      greedyStep_keepStep
    using keep_accept_all[of ?c "[]"] c2 by simp
  then have "greedySearch (greedySearch spans flatNer multiLabel) flatNer multiLabel
     = greedySearch spans flatNer multiLabel"
    using sort_key_sandwich[OF g1, of span_start] by (simp add: greedySearch_def)
  then show ?thesis by simp
qed


theorem C7_idempotent_witness:
  "greedySearch (greedySearch
     [\<lparr>span_text = ''a b c d'', span_start = 0, span_end = 7, span_label = ''x'', span_score = 0.6\<rparr>,
      \<lparr>span_text = ''e'', span_start = 8, span_end = 9, span_label = ''y'', span_score = 0.9\<rparr>,
      \<lparr>span_text = ''b'', span_start = 2, span_end = 3, span_label = ''x'', span_score = 0.7\<rparr>]
     True False) True False
   = [\<lparr>span_text = ''b'', span_start = 2, span_end = 3, span_label = ''x'', span_score = 0.7\<rparr>,
      \<lparr>span_text = ''e'', span_start = 8, span_end = 9, span_label = ''y'', span_score = 0.9\<rparr>]"
  using C7_idempotent [of
     "[\<lparr>span_text = ''a b c d'', span_start = 0, span_end = 7, span_label = ''x'', span_score = 0.6\<rparr>,
      \<lparr>span_text = ''e'', span_start = 8, span_end = 9, span_label = ''y'', span_score = 0.9\<rparr>,
      \<lparr>span_text = ''b'', span_start = 2, span_end = 3, span_label = ''x'', span_score = 0.7\<rparr>]"
     True False]
  by (simp add: greedySearch_def sortByScoreDesc_def greedySelected_def greedyStep_def
        spansConflict_def spansOverlap_def Let_def)



section \<open>Properties of the GLiNER2 entity decoder\<close>

lemma distinct_map_sorted_wrt: "distinct (map f xs) \<Longrightarrow> sorted_wrt (\<lambda>a b. f a \<noteq> f b) xs"
  by (induction xs) auto

lemma distinct_map_sort_key: "distinct (map f (sort_key k xs)) = distinct (map f xs)"
proof -
  have "mset (map f (sort_key k xs)) = mset (map f xs)" by simp
  then show ?thesis by (rule mset_eq_imp_distinct_iff)
qed

lemma deduplicateEntities_eq:
  "deduplicateEntities es = foldl (keepStep entityConflict) [] (sort_key (\<lambda>e. - ent_score e) es)"
  by (cases es) (simp_all add: deduplicateEntities_def dedupStep_keepStep)

text \<open>
  C9. \<open>deduplicateEntities\<close>, which takes the candidate list and nothing else (no flat-NER
  or multi-label flag reaches it; \<open>decodeEntities\<close> returns its result unchanged).
  \<^item> No two entities at different positions of the result have the same label and
    intersecting character ranges.
  \<^item> The result is a subsequence of the candidates in score-descending order.
  \<^item> Every candidate that was dropped conflicts with a surviving entity of the same label
    whose score is at least its own.
  \<^item> Entities with different labels never conflict, whatever their ranges: when all labels
    differ, every candidate survives.
\<close>

theorem C9_deduplicate:
  "(i < length (deduplicateEntities es) \<and> j < length (deduplicateEntities es) \<and> i \<noteq> j \<longrightarrow>
      \<not> (ent_label (deduplicateEntities es ! i) = ent_label (deduplicateEntities es ! j)
         \<and> ent_start (deduplicateEntities es ! i) < ent_end (deduplicateEntities es ! j)
         \<and> ent_end (deduplicateEntities es ! i) > ent_start (deduplicateEntities es ! j)))
   \<and> subseq (deduplicateEntities es) (sort_key (\<lambda>e. - ent_score e) es)
   \<and> (x \<in> set es \<and> x \<notin> set (deduplicateEntities es) \<longrightarrow>
        (\<exists>y\<in>set (deduplicateEntities es).
            ent_label x = ent_label y \<and> ent_start x < ent_end y \<and> ent_end x > ent_start y
            \<and> ent_score y \<ge> ent_score x))
   \<and> (distinct (map ent_label es) \<longrightarrow> deduplicateEntities es = sort_key (\<lambda>e. - ent_score e) es)
   \<and> (ent_label a \<noteq> ent_label b \<longrightarrow> \<not> entityConflict a b)
   \<and> (decodeEntities scoreData wordCount labels wordOffsets text threshold = Inr out \<longrightarrow>
        (\<exists>candidates. out = deduplicateEntities candidates))"
proof -
  let ?d = "deduplicateEntities es"
  let ?g = "\<lambda>e. - ent_score e"
  let ?R = "\<lambda>e x. \<not> entityConflict x e"
  have sw: "sorted_wrt ?R ?d"
    unfolding deduplicateEntities_eq by (rule keep_sorted_wrt) simp
  have p1: "i < length ?d \<and> j < length ?d \<and> i \<noteq> j \<longrightarrow> \<not> entityConflict (?d ! i) (?d ! j)"
  proof (intro impI, elim conjE)
    assume ij: "i < length ?d" "j < length ?d" "i \<noteq> j"
    show "\<not> entityConflict (?d ! i) (?d ! j)"
    proof (cases "i < j")
      case True
      then have "?R (?d ! i) (?d ! j)" using sw ij by (simp add: sorted_wrt_iff_nth_less)
      then show ?thesis using entityConflict_sym by blast
    next
      case False
      then have "j < i" using ij by simp
      then show ?thesis using sw ij by (simp add: sorted_wrt_iff_nth_less)
    qed
  qed
  have p2: "subseq ?d (sort_key ?g es)"
    using keep_subseq[of entityConflict "[]" "sort_key ?g es"]
    by (auto simp: deduplicateEntities_eq)
  have p3: "x \<in> set es \<and> x \<notin> set ?d \<longrightarrow>
        (\<exists>y\<in>set ?d. entityConflict x y \<and> ent_score y \<ge> ent_score x)"
  proof (intro impI, elim conjE)
    assume x: "x \<in> set es" "x \<notin> set ?d"
    have "\<exists>e\<in>set (foldl (keepStep entityConflict) [] (sort_key ?g es)).
            entityConflict x e \<and> ?g e \<le> ?g x"
      using x by (intro keep_rejected) (simp_all add: deduplicateEntities_eq)
    then show "\<exists>y\<in>set ?d. entityConflict x y \<and> ent_score y \<ge> ent_score x"
      by (simp add: deduplicateEntities_eq)
  qed
  have p4: "distinct (map ent_label es) \<longrightarrow> ?d = sort_key ?g es"
  proof
    assume "distinct (map ent_label es)"
    then have "distinct (map ent_label (sort_key ?g es))" by (simp add: distinct_map_sort_key)
    then have "sorted_wrt (\<lambda>a b. ent_label a \<noteq> ent_label b) (sort_key ?g es)"
      by (rule distinct_map_sorted_wrt)
    then have "sorted_wrt ?R (sort_key ?g es)"
      by (rule sorted_wrt_mono_rel[rotated]) (auto simp: entityConflict_def)
    then show "?d = sort_key ?g es"
      using keep_accept_all[of entityConflict "[]" "sort_key ?g es"]
      by (simp add: deduplicateEntities_eq)
  qed
  have p5: "ent_label a \<noteq> ent_label b \<longrightarrow> \<not> entityConflict a b"
    by (simp add: entityConflict_def)
  have p6: "decodeEntities scoreData wordCount labels wordOffsets text threshold = Inr out \<longrightarrow>
        (\<exists>candidates. out = deduplicateEntities candidates)"
    by (auto simp: decodeEntities_def split: sum.splits)
  show ?thesis
    using p1 p2 p3 p4 p5 p6 unfolding entityConflict_def by blast
qed


theorem C9_deduplicate_witness:
  "deduplicateEntities
     [\<lparr>ent_text = ''ab cd'', ent_label = ''x'', ent_start = 0, ent_end = 5, ent_score = 0.9\<rparr>,
      \<lparr>ent_text = ''cd ef'', ent_label = ''x'', ent_start = 3, ent_end = 8, ent_score = 0.8\<rparr>,
      \<lparr>ent_text = ''cd ef'', ent_label = ''y'', ent_start = 3, ent_end = 8, ent_score = 0.7\<rparr>]
   = [\<lparr>ent_text = ''ab cd'', ent_label = ''x'', ent_start = 0, ent_end = 5, ent_score = 0.9\<rparr>,
      \<lparr>ent_text = ''cd ef'', ent_label = ''y'', ent_start = 3, ent_end = 8, ent_score = 0.7\<rparr>]
   \<and> decodeEntities
        \<lparr>scores = [Some 0.9, Some 0.2], wordSpanStart = [0], wordSpanEnd = [0], spanCount = 1\<rparr>
        1 [''x'', ''y''] [(0, 4)] ''John'' 0.5
     = Inr [\<lparr>ent_text = ''John'', ent_label = ''x'', ent_start = 0, ent_end = 4, ent_score = 0.9\<rparr>]"
  using C9_deduplicate [of 0
     "[\<lparr>ent_text = ''ab cd'', ent_label = ''x'', ent_start = 0, ent_end = 5, ent_score = 0.9\<rparr>,
      \<lparr>ent_text = ''cd ef'', ent_label = ''x'', ent_start = 3, ent_end = 8, ent_score = 0.8\<rparr>,
      \<lparr>ent_text = ''cd ef'', ent_label = ''y'', ent_start = 3, ent_end = 8, ent_score = 0.7\<rparr>]"
     1
     "\<lparr>ent_text = ''cd ef'', ent_label = ''x'', ent_start = 3, ent_end = 8, ent_score = 0.8\<rparr>"
     "\<lparr>ent_text = ''ab cd'', ent_label = ''x'', ent_start = 0, ent_end = 5, ent_score = 0.9\<rparr>"
     "\<lparr>ent_text = ''cd ef'', ent_label = ''y'', ent_start = 3, ent_end = 8, ent_score = 0.7\<rparr>"
     "\<lparr>scores = [Some 0.9, Some 0.2], wordSpanStart = [0], wordSpanEnd = [0], spanCount = 1\<rparr>"
     1 "[''x'', ''y'']" "[(0, 4)]" "''John''" "0.5"
     "[\<lparr>ent_text = ''John'', ent_label = ''x'', ent_start = 0, ent_end = 4, ent_score = 0.9\<rparr>]"]
  by (simp add: deduplicateEntities_def dedupStep_def entityConflict_def Let_def
        decodeEntities_def decodeSpan_def decodeLabel_def nth_opt_def geUndef_def jsSlice_def
        upt_rec)



section \<open>Properties of the classification decoder\<close>

lemma length_softmax: "length (softmax approx values) = length values"
  by (simp add: softmax_def Let_def)











section \<open>Properties of the span decoder\<close>

lemma foldE_snoc:
  "foldE f s (xs @ [x]) = (case foldE f s xs of Inl e \<Rightarrow> Inl e | Inr s' \<Rightarrow> f s' x)"
  by (induction xs arbitrary: s) (auto split: sum.splits)



lemma push_loop:
  assumes "\<forall>idx<n. \<forall>b sp. C idx = Some (b, sp) \<longrightarrow> b < bs"
  shows "foldE (\<lambda>spans idx. pushSpan spans (C idx)) (replicate bs []) [0..<n]
         = Inr (map (\<lambda>b. map (\<lambda>idx. snd (the (C idx)))
                           (filter (\<lambda>idx. \<exists>sp. C idx = Some (b, sp)) [0..<n])) [0..<bs])"
  using assms
proof (induction n)
  case 0
  have "replicate bs [] = map (\<lambda>b. []) [0..<bs]"
    by (simp add: map_replicate_const)
  then show ?case by simp
next
  case (Suc n)
  let ?F = "\<lambda>n b. map (\<lambda>idx. snd (the (C idx))) (filter (\<lambda>idx. \<exists>sp. C idx = Some (b, sp)) [0..<n])"
  have pre: "\<forall>idx<n. \<forall>b sp. C idx = Some (b, sp) \<longrightarrow> b < bs"
    using Suc.prems less_Suc_eq by blast
  have IH: "foldE (\<lambda>spans idx. pushSpan spans (C idx)) (replicate bs []) [0..<n]
         = Inr (map (?F n) [0..<bs])"
    using Suc.IH[OF pre] .
  have step: "pushSpan (map (?F n) [0..<bs]) (C n) = Inr (map (?F (Suc n)) [0..<bs])"
  proof (cases "C n")
    case None
    then show ?thesis by (simp add: pushSpan_def)
  next
    case (Some c)
    obtain b sp where c: "c = (b, sp)" by (cases c)
    have b: "b < bs" using Suc.prems Some c by blast
    have "(map (?F n) [0..<bs])[b := map (?F n) [0..<bs] ! b @ [sp]] = map (?F (Suc n)) [0..<bs]"
      using b Some c by (intro nth_equalityI) (auto simp: nth_list_update)
    then show ?thesis using Some c b by (simp add: pushSpan_def)
  qed
  show ?case using IH step by (simp add: foldE_snoc)
qed



lemma extractSpans_groups:
  assumes "\<forall>idx<length modelOutput. \<forall>b sp.
             extractCandidate approx maxWidth inputLength entityCount texts batchIds charStartOffsets
               charEndOffsets classes modelOutput threshold idx = Some (b, sp) \<longrightarrow> b < batchSize"
  shows "extractSpans approx maxWidth batchSize inputLength entityCount texts batchIds charStartOffsets
           charEndOffsets classes modelOutput threshold
         = Inr (map (\<lambda>b. map (\<lambda>idx. snd (the (extractCandidate approx maxWidth inputLength entityCount
                                    texts batchIds charStartOffsets charEndOffsets classes
                                    modelOutput threshold idx)))
                  (filter (\<lambda>idx. \<exists>sp. extractCandidate approx maxWidth inputLength entityCount
                                    texts batchIds charStartOffsets charEndOffsets classes
                                    modelOutput threshold idx = Some (b, sp))
                     [0..<length modelOutput])) [0..<batchSize])"
  unfolding extractSpans_def using assms by (rule push_loop)

lemma extractCandidate_batch_bound:
  assumes "extractCandidate approx maxWidth inputLength entityCount texts batchIds charStartOffsets
             charEndOffsets classes modelOutput threshold idx = Some (b, sp)"
  shows "b < length charStartOffsets \<and> b < length charEndOffsets"
  using assms
  by (auto simp: extractCandidate_def Let_def nth_opt_def split: if_splits option.splits)






section \<open>Properties of the word splitters\<close>

lemma starEnds_suffix:
  assumes "\<And>s rest. rest \<in> set (f s) \<Longrightarrow> \<exists>m. s = m @ rest \<and> list_all P m"
  shows "rest \<in> set (starEnds f n s) \<Longrightarrow> \<exists>m. s = m @ rest \<and> list_all P m"
proof (induction n arbitrary: s)
  case 0
  then show ?case by simp
next
  case (Suc n)
  then consider "rest = s"
    | s' where "s' \<in> set (f s)" "length s' < length s" "rest \<in> set (starEnds f n s')"
    by (auto split: if_splits)
  then show ?case
  proof cases
    case 1
    then show ?thesis by simp
  next
    case 2
    obtain m1 where m1: "s = m1 @ s'" "list_all P m1" using assms 2(1) by blast
    obtain m2 where m2: "s' = m2 @ rest" "list_all P m2" using Suc.IH 2(3) by blast
    have "s = (m1 @ m2) @ rest \<and> list_all P (m1 @ m2)" using m1 m2 by simp
    then show ?thesis by blast
  qed
qed

lemma matchEnds_suffix:
  "clsAll P r \<Longrightarrow> rest \<in> set (matchEnds r s) \<Longrightarrow> \<exists>m. s = m @ rest \<and> list_all P m"
proof (induction r arbitrary: s rest)
  case Eps
  then show ?case by simp
next
  case (Cls Q)
  then show ?case by (cases s) (auto split: if_splits)
next
  case (Seq a b)
  from Seq.prems obtain mid where mid: "mid \<in> set (matchEnds a s)" "rest \<in> set (matchEnds b mid)"
    by auto
  obtain m1 where m1: "s = m1 @ mid" "list_all P m1" using Seq.IH(1) Seq.prems(1) mid(1) by auto
  obtain m2 where m2: "mid = m2 @ rest" "list_all P m2" using Seq.IH(2) Seq.prems(1) mid(2) by auto
  have "s = (m1 @ m2) @ rest \<and> list_all P (m1 @ m2)" using m1 m2 by simp
  then show ?case by blast
next
  case (Alt a b)
  then show ?case by auto
next
  case (Star a)
  have "\<And>s rest. rest \<in> set (matchEnds a s) \<Longrightarrow> \<exists>m. s = m @ rest \<and> list_all P m"
    using Star.IH Star.prems(1) by simp
  then show ?case using Star.prems(2) starEnds_suffix[of "matchEnds a" P rest "length s" s] by simp
qed

lemma clsAll_True: "clsAll (\<lambda>c. True) r"
  by (induction r) simp_all

lemma matchEnds_le: "rest \<in> set (matchEnds r s) \<Longrightarrow> length rest \<le> length s"
  using matchEnds_suffix[OF clsAll_True, of rest r s] by auto

lemma matchEnds_shorter:
  "\<not> nullable r \<Longrightarrow> rest \<in> set (matchEnds r s) \<Longrightarrow> length rest < length s"
proof (induction r arbitrary: s rest)
  case Eps
  then show ?case by simp
next
  case (Cls Q)
  then show ?case by (cases s) (auto split: if_splits)
next
  case (Seq a b)
  from Seq.prems obtain mid where mid: "mid \<in> set (matchEnds a s)" "rest \<in> set (matchEnds b mid)"
    by auto
  have l1: "length mid \<le> length s" using mid(1) by (rule matchEnds_le)
  have l2: "length rest \<le> length mid" using mid(2) by (rule matchEnds_le)
  show ?case
  proof (cases "nullable a")
    case True
    then have "\<not> nullable b" using Seq.prems(1) by simp
    then have "length rest < length mid" using Seq.IH(2) mid(2) by blast
    then show ?thesis using l1 by simp
  next
    case False
    then have "length mid < length s" using Seq.IH(1) mid(1) by blast
    then show ?thesis using l2 by simp
  qed
next
  case (Alt a b)
  then show ?case by auto
next
  case (Star a)
  then show ?case by simp
qed

lemma execFrom_None:
  "execFrom r s i = None \<Longrightarrow> matchEnds r (drop k s) = []"
proof (induction s arbitrary: i k)
  case Nil
  then show ?case by (simp split: list.splits)
next
  case (Cons c cs)
  from Cons.prems have h: "matchEnds r (c # cs) = []" "execFrom r cs (Suc i) = None"
    by (auto split: list.splits)
  show ?case
  proof (cases k)
    case 0
    then show ?thesis using h(1) by simp
  next
    case (Suc k')
    then show ?thesis using Cons.IH[OF h(2), of k'] by simp
  qed
qed

lemma execFrom_Some:
  assumes "execFrom r s i = Some (idx, matched)"
  shows "\<exists>pre rest. s = pre @ matched @ rest \<and> idx = i + length pre
           \<and> (\<forall>k<length pre. matchEnds r (drop k s) = [])
           \<and> matchEnds r (matched @ rest) \<noteq> [] \<and> hd (matchEnds r (matched @ rest)) = rest"
  using assms
proof (induction s arbitrary: i)
  case Nil
  then obtain x xs where x: "matchEnds r [] = x # xs" "idx = i" "matched = []"
    by (auto split: list.splits)
  have "x \<in> set (matchEnds r [])" using x(1) by simp
  then have "x = []" using matchEnds_le[of x r "[]"] by simp
  then show ?case using x by simp
next
  case (Cons c cs)
  show ?case
  proof (cases "matchEnds r (c # cs)")
    case Nil
    then have "execFrom r cs (Suc i) = Some (idx, matched)" using Cons.prems by simp
    then obtain pre rest where p: "cs = pre @ matched @ rest" "idx = Suc i + length pre"
        "\<forall>k<length pre. matchEnds r (drop k cs) = []"
        "matchEnds r (matched @ rest) \<noteq> []" "hd (matchEnds r (matched @ rest)) = rest"
      using Cons.IH by blast
    have "\<forall>k<length (c # pre). matchEnds r (drop k (c # cs)) = []"
      using p(3) Nil by (auto simp: less_Suc_eq_0_disj)
    then have "c # cs = (c # pre) @ matched @ rest \<and> idx = i + length (c # pre)
           \<and> (\<forall>k<length (c # pre). matchEnds r (drop k (c # cs)) = [])
           \<and> matchEnds r (matched @ rest) \<noteq> [] \<and> hd (matchEnds r (matched @ rest)) = rest"
      using p by simp
    then show ?thesis by blast
  next
    case (Cons rest more)
    then have e: "idx = i" "matched = take (length (c # cs) - length rest) (c # cs)"
      using Cons.prems by simp_all
    have "rest \<in> set (matchEnds r (c # cs))" using Cons by simp
    then obtain m where m: "c # cs = m @ rest"
      using matchEnds_suffix[OF clsAll_True] by blast
    then have "matched = m" using e(2) by simp
    then have "c # cs = [] @ matched @ rest \<and> idx = i + length ([]::string)
           \<and> (\<forall>k<length ([]::string). matchEnds r (drop k (c # cs)) = [])
           \<and> matchEnds r (matched @ rest) \<noteq> [] \<and> hd (matchEnds r (matched @ rest)) = rest"
      using m e(1) Cons by simp
    then show ?thesis by blast
  qed
qed


lemma splitLoop_tokenizes:
  assumes nn: "\<not> nullable r" and cls: "clsAll (\<lambda>c. \<not> isSpace c) r"
    and fb: "\<And>c cs. \<not> isSpace c \<Longrightarrow> matchEnds r (c # cs) \<noteq> []"
  shows "i \<le> length text \<Longrightarrow>
         \<exists>toks. splitLoop r text i = Some toks \<and> tokenizes r (drop i text) i toks"
proof (induction "length text - i" arbitrary: i rule: less_induct)
  case less
  let ?s = "drop i text"
  have skip: "\<And>k. k < length ?s \<Longrightarrow> matchEnds r (drop k ?s) = [] \<Longrightarrow> isSpace (?s ! k)"
  proof -
    fix k assume k: "k < length ?s" and e: "matchEnds r (drop k ?s) = []"
    have "drop k ?s = (?s ! k) # drop (Suc k) ?s" by (rule Cons_nth_drop_Suc[OF k, symmetric])
    then show "isSpace (?s ! k)" using e fb by metis
  qed
  show ?case
  proof (cases "execFrom r ?s i")
    case None
    have "\<forall>k<length ?s. isSpace (?s ! k)"
      using skip execFrom_None[OF None] by blast
    then have "list_all isSpace ?s" by (simp add: list_all_length)
    moreover have "splitLoop r text i = Some []"
      using None less.prems by (subst splitLoop.simps) (simp add: exec_def)
    ultimately show ?thesis by simp
  next
    case (Some p)
    obtain idx matched where p: "p = (idx, matched)" by (cases p)
    obtain pre rest where d: "?s = pre @ matched @ rest" "idx = i + length pre"
        "\<forall>k<length pre. matchEnds r (drop k ?s) = []"
        "matchEnds r (matched @ rest) \<noteq> []" "hd (matchEnds r (matched @ rest)) = rest"
      using execFrom_Some[of r ?s i idx matched] Some p by blast
    have mem: "rest \<in> set (matchEnds r (matched @ rest))" using d(4,5) hd_in_set by metis
    have ne: "matched \<noteq> []" using matchEnds_shorter[OF nn mem] by auto
    obtain m where m: "matched @ rest = m @ rest" "list_all (\<lambda>c. \<not> isSpace c) m"
      using matchEnds_suffix[OF cls mem] by blast
    then have ws: "list_all (\<lambda>c. \<not> isSpace c) matched" by simp
    have pre: "list_all isSpace pre"
    proof -
      have "\<forall>k<length pre. isSpace (pre ! k)"
      proof (intro allI impI)
        fix k assume k: "k < length pre"
        then have "k < length ?s" using d(1) by (metis length_append trans_less_add1)
        moreover have "matchEnds r (drop k ?s) = []" using d(3) k by blast
        ultimately have "isSpace (?s ! k)" by (rule skip)
        then show "isSpace (pre ! k)" using d(1) k by (simp add: nth_append)
      qed
      then show ?thesis by (simp add: list_all_length)
    qed
    have len: "i + length pre + length matched + length rest = length text"
    proof -
      have "length ?s = length pre + length matched + length rest" using d(1) by simp
      then show ?thesis using less.prems by simp
    qed
    let ?j = "idx + length matched"
    have j: "?j \<le> length text" "length text - ?j < length text - i"
      using len d(2) ne by (simp_all add: length_greater_0_conv[symmetric] del: length_greater_0_conv)
    have dj: "drop ?j text = rest"
    proof -
      have "drop ?j text = drop (length pre + length matched) ?s"
        using d(2) by (simp add: add.commute add.left_commute)
      also have "\<dots> = rest" using d(1) by simp
      finally show ?thesis .
    qed
    obtain more where more: "splitLoop r text ?j = Some more" "tokenizes r rest ?j more"
      using less.hyps[OF j(2) j(1)] dj by auto
    have run: "splitLoop r text i = Some ((matched, idx, ?j) # more)"
      using Some p less.prems more(1) by (subst splitLoop.simps) (simp add: exec_def)
    have "tokenizes r ?s i ((matched, idx, ?j) # more)"
      using d pre ne ws more(2) by simp
    then show ?thesis using run by blast
  qed
qed

lemma wordChar_not_space: "isWordChar c \<Longrightarrow> \<not> isSpace c"
  by (auto simp: isWordChar_def isSpace_def isDigit_def isLower_def isUpper_def)

lemma alpha_not_space: "isAlpha c \<Longrightarrow> \<not> isSpace c"
  by (auto simp: isAlpha_def isSpace_def isLower_def isUpper_def)

lemma digit_not_space: "isDigit c \<Longrightarrow> \<not> isSpace c"
  by (auto simp: isSpace_def isDigit_def)

lemma literal_not_space:
  "c \<in> set ''-_.%+@:/hHtTpPsSwW'' \<Longrightarrow> \<not> isSpace c"
  by (auto simp: isSpace_def)

lemma clsAll_wordRx: "clsAll (\<lambda>c. \<not> isSpace c) wordRx"
  using wordChar_not_space literal_not_space by (auto simp: wordRx_def Plus_def)

lemma clsAll_whitespacePattern: "clsAll (\<lambda>c. \<not> isSpace c) whitespacePattern"
  using clsAll_wordRx by (simp add: whitespacePattern_def nonSpaceRx_def)

lemma clsAll_WORD_PATTERN: "clsAll (\<lambda>c. \<not> isSpace c) WORD_PATTERN"
  using clsAll_wordRx alpha_not_space digit_not_space literal_not_space
  by (auto simp: WORD_PATTERN_def urlRx_def emailRx_def mentionRx_def nonSpaceRx_def Plus_def
        Opt_def chr_def chrI_def)

lemma not_nullable_patterns: "\<not> nullable whitespacePattern" "\<not> nullable WORD_PATTERN"
  by (simp_all add: whitespacePattern_def WORD_PATTERN_def urlRx_def emailRx_def mentionRx_def
        wordRx_def nonSpaceRx_def Plus_def Opt_def chr_def chrI_def)

lemma fallback_patterns:
  "\<not> isSpace c \<Longrightarrow> matchEnds whitespacePattern (c # cs) \<noteq> []"
  "\<not> isSpace c \<Longrightarrow> matchEnds WORD_PATTERN (c # cs) \<noteq> []"
  by (simp_all add: whitespacePattern_def WORD_PATTERN_def nonSpaceRx_def)

lemma whitespaceSplit_tokenizes:
  "\<exists>toks. whitespaceSplit text = Some toks \<and> tokenizes whitespacePattern text 0 toks"
  using splitLoop_tokenizes[OF not_nullable_patterns(1) clsAll_whitespacePattern
      fallback_patterns(1), of 0 "text"]
  by (simp add: whitespaceSplit_def)

lemma wordPatternSplit_tokenizes:
  "\<exists>toks. wordPatternSplit text = Some toks \<and> tokenizes WORD_PATTERN text 0 toks"
  using splitLoop_tokenizes[OF not_nullable_patterns(2) clsAll_WORD_PATTERN
      fallback_patterns(2), of 0 "text"]
  by (simp add: wordPatternSplit_def)


lemma tokenizes_member:
  "tokenizes r s i toks \<Longrightarrow> (tok, st, en) \<in> set toks \<Longrightarrow>
     i \<le> st \<and> st < en \<and> en \<le> i + length s \<and> tok = take (en - st) (drop (st - i) s)
     \<and> list_all (\<lambda>c. \<not> isSpace c) tok
     \<and> matchEnds r (drop (st - i) s) \<noteq> []
     \<and> hd (matchEnds r (drop (st - i) s)) = drop (en - i) s"
proof (induction r s i toks rule: tokenizes.induct)
  case (1 r s i)
  then show ?case by simp
next
  case (2 r s i tk start end' more)
  have A: "i \<le> start \<and> list_all isSpace (take (start - i) s)
      \<and> tk \<noteq> [] \<and> list_all (\<lambda>c. \<not> isSpace c) tk
      \<and> tk = take (length tk) (drop (start - i) s)
      \<and> start - i + length tk \<le> length s
      \<and> end' = start + length tk
      \<and> matchEnds r (drop (start - i) s) \<noteq> []
      \<and> hd (matchEnds r (drop (start - i) s)) = drop (start - i + length tk) s
      \<and> tokenizes r (drop (start - i + length tk) s) end' more"
    using "2.prems"(1)[unfolded tokenizes.simps] .
  then have a: "i \<le> start" "tk \<noteq> []" "list_all (\<lambda>c. \<not> isSpace c) tk"
      "tk = take (length tk) (drop (start - i) s)" "start - i + length tk \<le> length s"
      "end' = start + length tk" "matchEnds r (drop (start - i) s) \<noteq> []"
      "hd (matchEnds r (drop (start - i) s)) = drop (start - i + length tk) s"
      "tokenizes r (drop (start - i + length tk) s) end' more"
    by - (elim conjE, assumption)+
  have e0: "start - i + length tk = end' - i" using a(1,6) by simp
  show ?case
  proof (cases "(tok, st, en) = (tk, start, end')")
    case True
    then have eq: "tok = tk" "st = start" "en = end'" by simp_all
    have "0 < length tk" using a(2) by simp
    then have "st < en" using eq a(6) by simp
    moreover have "en \<le> i + length s" using eq a(1,5,6) by simp
    moreover have "en - st = length tk" using eq a(6) by simp
    ultimately show ?thesis using eq a e0 by simp
  next
    case False
    then have mem: "(tok, st, en) \<in> set more" using "2.prems"(2) by auto
    have ih: "end' \<le> st" "st < en" "en \<le> end' + length (drop (start - i + length tk) s)"
      "tok = take (en - st) (drop (st - end') (drop (start - i + length tk) s))"
      "list_all (\<lambda>c. \<not> isSpace c) tok"
      "matchEnds r (drop (st - end') (drop (start - i + length tk) s)) \<noteq> []"
      "hd (matchEnds r (drop (st - end') (drop (start - i + length tk) s)))
         = drop (en - end') (drop (start - i + length tk) s)"
      using "2.IH"[OF a(9) mem] by - (elim conjE, assumption)+
    have e: "st - end' + (start - i + length tk) = st - i"
      "en - end' + (start - i + length tk) = en - i"
      using ih(1,2) a(1,6) by simp_all
    have d1: "drop (st - end') (drop (start - i + length tk) s) = drop (st - i) s"
      using e(1) by (simp only: drop_drop)
    have d2: "drop (en - end') (drop (start - i + length tk) s) = drop (en - i) s"
      using e(2) by (simp only: drop_drop)
    have "i \<le> st" using ih(1) a(1,6) by simp
    moreover have "en \<le> i + length s" using ih(3) a(1,5,6) by simp
    ultimately show ?thesis using ih(2,5) ih(4,6,7)[unfolded d1 d2] by blast
  qed
qed

subsection \<open>The word rule\<close>

lemma starEnds_nonempty: "starEnds f n s \<noteq> []"
  by (cases n) simp_all

lemma hd_concat_map:
  "xs \<noteq> [] \<Longrightarrow> g (hd xs) \<noteq> [] \<Longrightarrow> hd (concat (map g xs)) = hd (g (hd xs))"
  by (cases xs) simp_all

lemma starEnds_Suc_hd:
  assumes "f s \<noteq> []" and "length (hd (f s)) < length s"
  shows "hd (starEnds f (Suc n) s) = hd (starEnds f n (hd (f s)))"
proof -
  let ?g = "\<lambda>s'. if length s' < length s then starEnds f n s' else []"
  have g: "?g (hd (f s)) \<noteq> []" using assms(2) starEnds_nonempty by simp
  obtain a as where a: "f s = a # as" using assms(1) by (cases "f s") auto
  have h: "hd (f s) = a" using a by simp
  have "?g a \<noteq> []" using g unfolding h .
  then have ne: "concat (map ?g (f s)) \<noteq> []"
    unfolding a by simp
  have "hd (starEnds f (Suc n) s) = hd (concat (map ?g (f s)))"
    using ne by simp
  also have "\<dots> = hd (?g (hd (f s)))" using assms(1) g by (rule hd_concat_map)
  also have "\<dots> = hd (starEnds f n (hd (f s)))" using assms(2) by simp
  finally show ?thesis .
qed

lemma starEnds_Suc_Nil: "f s = [] \<Longrightarrow> starEnds f (Suc n) s = [s]"
  by simp

lemma starEnds_Cls:
  "length s \<le> n \<Longrightarrow> hd (starEnds (matchEnds (Cls P)) n s) = dropWhile P s"
proof (induction n arbitrary: s)
  case 0
  then show ?case by simp
next
  case (Suc n)
  show ?case
  proof (cases s)
    case Nil
    then show ?thesis by simp
  next
    case (Cons c cs)
    show ?thesis
    proof (cases "P c")
      case True
      have "hd (starEnds (matchEnds (Cls P)) n cs) = dropWhile P cs"
        using Suc.IH[of cs] Suc.prems Cons by simp
      then show ?thesis using True Cons starEnds_nonempty[of "matchEnds (Cls P)" n cs] by simp
    next
      case False
      then show ?thesis using Cons by simp
    qed
  qed
qed

lemma matchEnds_Plus_Cls:
  "matchEnds (Plus (Cls P)) s
     = (case s of [] \<Rightarrow> [] | c # cs \<Rightarrow> if P c then starEnds (matchEnds (Cls P)) (length cs) cs else [])"
  by (cases s) (simp_all add: Plus_def)

lemma hd_matchEnds_Plus_Cls:
  "P c \<Longrightarrow> matchEnds (Plus (Cls P)) (c # cs) \<noteq> []
          \<and> hd (matchEnds (Plus (Cls P)) (c # cs)) = dropWhile P (c # cs)"
  using starEnds_Cls[of cs "length cs" P] starEnds_nonempty[of "matchEnds (Cls P)" "length cs" cs]
  by (simp add: matchEnds_Plus_Cls)

lemma sepWord_step:
  "matchEnds (Seq (Cls (\<lambda>c. c = CHR ''-'' \<or> c = CHR ''_'')) (Plus (Cls isWordChar))) s
     = (case s of
          c # d # cs \<Rightarrow>
            if (c = CHR ''-'' \<or> c = CHR ''_'') \<and> isWordChar d
            then matchEnds (Plus (Cls isWordChar)) (d # cs) else []
        | _ \<Rightarrow> [])"
  by (cases s rule: wordTail.cases) (auto simp: matchEnds_Plus_Cls split: list.splits)

lemma wordTail_step:
  "(c = CHR ''-'' \<or> c = CHR ''_'') \<and> isWordChar d \<Longrightarrow>
     wordTail (c # d # cs) = wordTail (dropWhile isWordChar (d # cs))"
  by (subst wordTail.simps) simp

lemma wordTail_stop:
  assumes "\<not> (\<exists>c d cs. s = c # d # cs \<and> (c = CHR ''-'' \<or> c = CHR ''_'') \<and> isWordChar d)"
  shows "wordTail s = s"
proof (cases s)
  case Nil
  then show ?thesis by (subst wordTail.simps) simp
next
  case (Cons c t)
  show ?thesis
  proof (cases t)
    case Nil
    then show ?thesis using Cons by (subst wordTail.simps) simp
  next
    case (Cons d cs)
    then have "\<not> ((c = CHR ''-'' \<or> c = CHR ''_'') \<and> isWordChar d)"
      using assms \<open>s = c # t\<close> by blast
    then show ?thesis using Cons \<open>s = c # t\<close> by (subst wordTail.simps) auto
  qed
qed

lemma starEnds_wordTail:
  "length s \<le> n \<Longrightarrow>
   hd (starEnds (matchEnds (Seq (Cls (\<lambda>c. c = CHR ''-'' \<or> c = CHR ''_''))
                       (Plus (Cls isWordChar)))) n s) = wordTail s"
proof (induction n arbitrary: s)
  case 0
  then show ?case using wordTail_stop[of s] by simp
next
  case (Suc n)
  let ?X = "Seq (Cls (\<lambda>c. c = CHR ''-'' \<or> c = CHR ''_'')) (Plus (Cls isWordChar))"
  show ?case
  proof (cases "\<exists>c d cs. s = c # d # cs \<and> (c = CHR ''-'' \<or> c = CHR ''_'') \<and> isWordChar d")
    case True
    then obtain c d cs where s: "s = c # d # cs" "c = CHR ''-'' \<or> c = CHR ''_''" "isWordChar d"
      by blast
    let ?s1 = "dropWhile isWordChar (d # cs)"
    have m: "matchEnds ?X s \<noteq> []" "hd (matchEnds ?X s) = ?s1"
      using hd_matchEnds_Plus_Cls[of isWordChar d cs] s by (simp_all add: sepWord_step)
    have l1: "length ?s1 < length s" using s(1) length_dropWhile_le[of isWordChar "d # cs"]
      by simp
    then have l2: "length ?s1 \<le> n" using Suc.prems by simp
    have "hd (starEnds (matchEnds ?X) (Suc n) s) = hd (starEnds (matchEnds ?X) n (hd (matchEnds ?X s)))"
    proof (rule starEnds_Suc_hd)
      show "matchEnds ?X s \<noteq> []" by (rule m(1))
      show "length (hd (matchEnds ?X s)) < length s" unfolding m(2) by (rule l1)
    qed
    also have "\<dots> = hd (starEnds (matchEnds ?X) n ?s1)" by (simp only: m(2))
    also have "\<dots> = wordTail ?s1" using Suc.IH[OF l2] .
    also have "\<dots> = wordTail s" using s wordTail_step[of c d cs] by simp
    finally show ?thesis .
  next
    case False
    then have "matchEnds ?X s = []"
      unfolding sepWord_step by (auto split: list.splits)
    then have "starEnds (matchEnds ?X) (Suc n) s = [s]" by (rule starEnds_Suc_Nil)
    moreover have "wordTail s = s"
      using False by (rule wordTail_stop)
    ultimately show ?thesis by (simp only: list.sel)
  qed
qed

lemma matchEnds_wordRx:
  "matchEnds wordRx s \<noteq> [] = (s \<noteq> [] \<and> isWordChar (hd s))"
  "s \<noteq> [] \<Longrightarrow> isWordChar (hd s) \<Longrightarrow> hd (matchEnds wordRx s) = afterWord s"
proof -
  let ?X = "Seq (Cls (\<lambda>c. c = CHR ''-'' \<or> c = CHR ''_'')) (Plus (Cls isWordChar))"
  have star: "\<And>t. matchEnds (Star ?X) t \<noteq> [] \<and> hd (matchEnds (Star ?X) t) = wordTail t"
    using starEnds_wordTail starEnds_nonempty by simp
  show "matchEnds wordRx s \<noteq> [] = (s \<noteq> [] \<and> isWordChar (hd s))"
  proof (cases s)
    case Nil
    then show ?thesis by (simp add: wordRx_def matchEnds_Plus_Cls)
  next
    case (Cons c cs)
    show ?thesis
    proof (cases "isWordChar c")
      case True
      have "matchEnds (Plus (Cls isWordChar)) s \<noteq> []"
        using hd_matchEnds_Plus_Cls[of isWordChar c cs] True Cons by simp
      then obtain x xs where "matchEnds (Plus (Cls isWordChar)) s = x # xs"
        by (cases "matchEnds (Plus (Cls isWordChar)) s") auto
      then show ?thesis using star[of x] True Cons by (simp add: wordRx_def)
    next
      case False
      then show ?thesis using Cons by (simp add: wordRx_def matchEnds_Plus_Cls)
    qed
  qed
  assume s: "s \<noteq> []" "isWordChar (hd s)"
  then obtain c cs where c: "s = c # cs" "isWordChar c" by (cases s) auto
  have p: "matchEnds (Plus (Cls isWordChar)) s \<noteq> []"
    "hd (matchEnds (Plus (Cls isWordChar)) s) = dropWhile isWordChar s"
    using hd_matchEnds_Plus_Cls[of isWordChar c cs] c by simp_all
  have "hd (matchEnds wordRx s)
        = hd (concat (map (matchEnds (Star ?X)) (matchEnds (Plus (Cls isWordChar)) s)))"
    by (simp add: wordRx_def)
  also have "\<dots> = hd (matchEnds (Star ?X) (hd (matchEnds (Plus (Cls isWordChar)) s)))"
    using p(1) star by (intro hd_concat_map) simp_all
  also have "\<dots> = afterWord s" using star p(2) by (simp add: afterWord_def)
  finally show "hd (matchEnds wordRx s) = afterWord s" .
qed



lemma split_member:
  assumes "tokenizes r text 0 toks" and "(tok, st, en) \<in> set toks"
  shows "st < en \<and> en \<le> length text \<and> tok = jsSlice st en text
         \<and> list_all (\<lambda>c. \<not> isSpace c) tok
         \<and> matchEnds r (drop st text) \<noteq> [] \<and> hd (matchEnds r (drop st text)) = drop en text"
proof -
  note t = tokenizes_member[OF assms, simplified]
  show ?thesis unfolding jsSlice_def using t by blast
qed

text \<open>
  C8 (amended). Both word splitters, on every text (of code units below 256).
  \<^item> Each terminates and returns one fixed sequence of triples \<open>(token, start, end)\<close> that
    tokenizes the text: tokens are non-empty, whitespace-free slices
    \<open>text.slice(start, end)\<close>, in increasing order without overlap, each being the match the
    pattern reports at its start, and every character outside the tokens is whitespace.
  \<^item> At a position \<open>WORD_PATTERN\<close> (GLiNER2) tries, in this order, URL, e-mail address,
    @-mention, word, single non-whitespace character; the pattern of
    \<open>WhitespaceTokenSplitter\<close> (GLiNER1) tries the word and then the single non-whitespace
    character only.
  \<^item> The word rule matches exactly where a word character stands, and its match is the
    longest run of word characters (alphanumeric or underscore), continued as long as a
    hyphen or underscore is directly followed by a word character.
\<close>

theorem C8_word_splitter:
  "(\<exists>toks. whitespaceSplit text = Some toks \<and> tokenizes whitespacePattern text 0 toks)
   \<and> (\<exists>toks. wordPatternSplit text = Some toks \<and> tokenizes WORD_PATTERN text 0 toks)
   \<and> (tokenizes r text 0 toks \<and> (tok, st, en) \<in> set toks \<longrightarrow>
         st < en \<and> en \<le> length text \<and> tok = jsSlice st en text
         \<and> list_all (\<lambda>c. \<not> isSpace c) tok
         \<and> matchEnds r (drop st text) \<noteq> [] \<and> hd (matchEnds r (drop st text)) = drop en text)
   \<and> matchEnds WORD_PATTERN s
        = matchEnds urlRx s @ matchEnds emailRx s @ matchEnds mentionRx s
          @ matchEnds wordRx s @ matchEnds nonSpaceRx s
   \<and> matchEnds whitespacePattern s = matchEnds wordRx s @ matchEnds nonSpaceRx s
   \<and> (matchEnds wordRx s \<noteq> []) = (s \<noteq> [] \<and> isWordChar (hd s))
   \<and> (s \<noteq> [] \<and> isWordChar (hd s) \<longrightarrow> hd (matchEnds wordRx s) = afterWord s)
   \<and> matchEnds nonSpaceRx s = (if s \<noteq> [] \<and> \<not> isSpace (hd s) then [tl s] else [])"
proof -
  have m: "tokenizes r text 0 toks \<and> (tok, st, en) \<in> set toks \<longrightarrow>
         st < en \<and> en \<le> length text \<and> tok = jsSlice st en text
         \<and> list_all (\<lambda>c. \<not> isSpace c) tok
         \<and> matchEnds r (drop st text) \<noteq> [] \<and> hd (matchEnds r (drop st text)) = drop en text"
    using split_member by blast
  have a: "matchEnds WORD_PATTERN s
        = matchEnds urlRx s @ matchEnds emailRx s @ matchEnds mentionRx s
          @ matchEnds wordRx s @ matchEnds nonSpaceRx s"
    by (simp add: WORD_PATTERN_def)
  have b: "matchEnds whitespacePattern s = matchEnds wordRx s @ matchEnds nonSpaceRx s"
    by (simp add: whitespacePattern_def)
  have c: "matchEnds nonSpaceRx s = (if s \<noteq> [] \<and> \<not> isSpace (hd s) then [tl s] else [])"
    by (cases s) (simp_all add: nonSpaceRx_def)
  show ?thesis
    using whitespaceSplit_tokenizes[of "text"] wordPatternSplit_tokenizes[of "text"] m a b c
      matchEnds_wordRx(1)[of s] matchEnds_wordRx(2)[of s]
    by blast
qed

theorem C8_word_splitter_witness:
  "whitespaceSplit ''Hi, x-ray  a_b'' =
     Some [(''Hi'', 0, 2), ('','', 2, 3), (''x-ray'', 4, 9), (''a_b'', 11, 14)]
   \<and> tokenizes whitespacePattern ''Hi, x-ray  a_b'' 0
        [(''Hi'', 0, 2), ('','', 2, 3), (''x-ray'', 4, 9), (''a_b'', 11, 14)]
   \<and> wordPatternSplit ''mail x@y.com or @bob at www.a.b'' =
     Some [(''mail'', 0, 4), (''x@y.com'', 5, 12), (''or'', 13, 15), (''@bob'', 16, 20),
           (''at'', 21, 23), (''www.a.b'', 24, 31)]
   \<and> hd (matchEnds wordRx ''x-ray  a_b'') = ''  a_b''"
proof -
  have e1: "whitespaceSplit ''Hi, x-ray  a_b'' =
     Some [(''Hi'', 0, 2), ('','', 2, 3), (''x-ray'', 4, 9), (''a_b'', 11, 14)]"
    by code_simp
  have e2: "wordPatternSplit ''mail x@y.com or @bob at www.a.b'' =
     Some [(''mail'', 0, 4), (''x@y.com'', 5, 12), (''or'', 13, 15), (''@bob'', 16, 20),
           (''at'', 21, 23), (''www.a.b'', 24, 31)]"
    by code_simp
  have e3: "afterWord ''x-ray  a_b'' = ''  a_b''" by code_simp
  have e4: "''x-ray  a_b'' \<noteq> [] \<and> isWordChar (hd ''x-ray  a_b'')" by code_simp
  note t = C8_word_splitter [of "''Hi, x-ray  a_b''" whitespacePattern
      "[(''Hi'', 0, 2), ('','', 2, 3), (''x-ray'', 4, 9), (''a_b'', 11, 14)]"
      "''x-ray''" 4 9 "''x-ray  a_b''"]
  from t[THEN conjunct1] obtain toks where toks: "whitespaceSplit ''Hi, x-ray  a_b'' = Some toks"
      "tokenizes whitespacePattern ''Hi, x-ray  a_b'' 0 toks"
    by (elim exE conjE)
  have "toks = [(''Hi'', 0, 2), ('','', 2, 3), (''x-ray'', 4, 9), (''a_b'', 11, 14)]"
    using toks(1) e1 by (simp only: option.inject)
  then have "tokenizes whitespacePattern ''Hi, x-ray  a_b'' 0
        [(''Hi'', 0, 2), ('','', 2, 3), (''x-ray'', 4, 9), (''a_b'', 11, 14)]"
    using toks(2) by (simp only:)
  moreover have "hd (matchEnds wordRx ''x-ray  a_b'') = ''  a_b''"
  proof -
    note imp = t[THEN conjunct2, THEN conjunct2, THEN conjunct2, THEN conjunct2,
        THEN conjunct2, THEN conjunct2, THEN conjunct1]
    from imp e4 have "hd (matchEnds wordRx ''x-ray  a_b'') = afterWord ''x-ray  a_b''"
      by (rule mp)
    then show ?thesis using e3 by (simp only:)
  qed
  ultimately show ?thesis using e1 e2 by (intro conjI)
qed

text \<open>
  The claim as stated fails for \<open>WhitespaceTokenSplitter\<close> at \<open>@bob\<close>: the @-mention rule
  matches the whole text, which is the one token of \<open>WORD_PATTERN\<close>, but the GLiNER1
  splitter returns \<open>@\<close> and \<open>bob\<close>. And \<open>a--b\<close>, a run of alphanumeric and hyphen
  characters, is four tokens for both splitters.
\<close>

theorem C8_counterexample:
  "whitespaceSplit ''@bob'' = Some [(''@'', 0, 1), (''bob'', 1, 4)]
   \<and> hd (matchEnds mentionRx ''@bob'') = ''''
   \<and> wordPatternSplit ''@bob'' = Some [(''@bob'', 0, 4)]
   \<and> list_all (\<lambda>c. isWordChar c \<or> c = CHR ''-'') ''a--b''
   \<and> whitespaceSplit ''a--b'' = Some [(''a'', 0, 1), (''-'', 1, 2), (''-'', 2, 3), (''b'', 3, 4)]
   \<and> wordPatternSplit ''a--b'' = Some [(''a'', 0, 1), (''-'', 1, 2), (''-'', 2, 3), (''b'', 3, 4)]"
  by code_simp



section \<open>Properties of the batch assembler\<close>

subsection \<open>Padding\<close>

lemma foldr_max_Max:
  "xs \<noteq> [] \<Longrightarrow> foldr max xs (0::nat) = Max (set xs)"
proof (induction xs)
  case Nil
  then show ?case by simp
next
  case (Cons x xs)
  show ?case
  proof (cases "xs = []")
    case True
    then show ?thesis by simp
  next
    case False
    then show ?thesis using Cons.IH by simp
  qed
qed

lemma padArrays_rows:
  assumes "i < length arrays"
  shows "length (padArrays pad arrays) = length arrays
       \<and> padArrays pad arrays ! i
           = arrays ! i @ replicate (Max (length ` set arrays) - length (arrays ! i)) pad
       \<and> length (arrays ! i) \<le> Max (length ` set arrays)
       \<and> length (padArrays pad arrays ! i) = Max (length ` set arrays)"
proof -
  have ne: "map length arrays \<noteq> []" using assms by auto
  have m: "foldr max (map length arrays) 0 = Max (length ` set arrays)"
    using foldr_max_Max[OF ne] by simp
  have le: "length (arrays ! i) \<le> Max (length ` set arrays)"
    using assms by (intro Max_ge) auto
  show ?thesis using assms m le by (simp add: padArrays_def Let_def)
qed

subsection \<open>Tokenizing the texts\<close>

lemma tokenizeTexts_total:
  "\<exists>tripless. length tripless = length texts
     \<and> (\<forall>i<length texts. whitespaceSplit (texts ! i) = Some (tripless ! i)
            \<and> tokenizes whitespacePattern (texts ! i) 0 (tripless ! i))
     \<and> tokenizeTexts texts
         = Some (map (map fst) tripless, map (map (\<lambda>t. fst (snd t))) tripless,
                 map (map (\<lambda>t. snd (snd t))) tripless)"
proof (induction texts)
  case Nil
  then show ?case by simp
next
  case (Cons t ts)
  obtain tr where tr: "whitespaceSplit t = Some tr" "tokenizes whitespacePattern t 0 tr"
    using whitespaceSplit_tokenizes by blast
  obtain trs where trs: "length trs = length ts"
      "\<forall>i<length ts. whitespaceSplit (ts ! i) = Some (trs ! i)
            \<and> tokenizes whitespacePattern (ts ! i) 0 (trs ! i)"
      "tokenizeTexts ts = Some (map (map fst) trs, map (map (\<lambda>t. fst (snd t))) trs,
                 map (map (\<lambda>t. snd (snd t))) trs)"
    using Cons.IH by blast
  have "length (tr # trs) = length (t # ts)
     \<and> (\<forall>i<length (t # ts). whitespaceSplit ((t # ts) ! i) = Some ((tr # trs) ! i)
            \<and> tokenizes whitespacePattern ((t # ts) ! i) 0 ((tr # trs) ! i))
     \<and> tokenizeTexts (t # ts)
         = Some (map (map fst) (tr # trs), map (map (\<lambda>t. fst (snd t))) (tr # trs),
                 map (map (\<lambda>t. snd (snd t))) (tr # trs))"
    using tr trs by (auto simp: nth_Cons split: nat.splits)
  then show ?case by blast
qed

subsection \<open>Encoding\<close>

lemma tokenStep_fold_length:
  "foldl (tokenStep p w ids) (a, b, c, d) [0..<n] = (a', b', c', d') \<Longrightarrow>
     length a' = length a + n \<and> length b' = length b + n \<and> length c' = length c + n"
proof (induction n arbitrary: a' b' c' d')
  case 0
  then show ?case by simp
next
  case (Suc n)
  obtain a1 b1 c1 d1 where s: "foldl (tokenStep p w ids) (a, b, c, d) [0..<n] = (a1, b1, c1, d1)"
    by (metis prod_cases4)
  have "tokenStep p w ids (a1, b1, c1, d1) n = (a', b', c', d')"
    using Suc.prems s by simp
  then have "length a' = length a1 + 1 \<and> length b' = length b1 + 1 \<and> length c' = length c1 + 1"
    by (auto simp: tokenStep_def split: if_splits)
  then show ?case using Suc.IH[OF s] by simp
qed

lemma wordStep_fold:
  "k \<le> length tokens \<Longrightarrow>
   foldl (wordStep tokenizer p tokens) ((a, b, c, d), calls) [0..<k] = ((a', b', c', d'), calls')
   \<Longrightarrow> length a' = length a + sum_list (map (subTokens tokenizer) (take k tokens))
     \<and> length b' = length b + sum_list (map (subTokens tokenizer) (take k tokens))
     \<and> length c' = length c + sum_list (map (subTokens tokenizer) (take k tokens))
     \<and> tokenizerCalls calls' = tokenizerCalls calls + k
     \<and> engineCalls calls' = engineCalls calls"
proof (induction k arbitrary: a' b' c' d' calls')
  case 0
  then show ?case by simp
next
  case (Suc k)
  obtain a1 b1 c1 d1 calls1 where
    s: "foldl (wordStep tokenizer p tokens) ((a, b, c, d), calls) [0..<k] = ((a1, b1, c1, d1), calls1)"
    by (metis prod_cases4 surj_pair)
  have k: "k \<le> length tokens" "k < length tokens" using Suc.prems(1) by simp_all
  note ih = Suc.IH[OF k(1) s]
  let ?ids = "butlast (tl (encode tokenizer (tokens ! k)))"
  have step: "wordStep tokenizer p tokens ((a1, b1, c1, d1), calls1) k = ((a', b', c', d'), calls')"
    using Suc.prems(2) s by simp
  then have f: "foldl (tokenStep p k ?ids) (a1, b1, c1, d1) [0..<length ?ids] = (a', b', c', d')"
    and c: "calls' = calls1\<lparr>tokenizerCalls := tokenizerCalls calls1 + 1\<rparr>"
    by (simp_all add: wordStep_def Let_def)
  have t: "take (Suc k) tokens = take k tokens @ [tokens ! k]"
    using k(2) by (simp add: take_Suc_conv_app_nth)
  show ?case
    using tokenStep_fold_length[OF f] ih c by (simp add: t subTokens_def)
qed

lemma encodeExample_length:
  assumes "encodeExample tokenizer p tokens calls = ((ids, att, wm), calls')"
  shows "length ids = 2 + sum_list (map (subTokens tokenizer) tokens)
       \<and> length att = length ids \<and> length wm = length ids
       \<and> tokenizerCalls calls' = tokenizerCalls calls + length tokens
       \<and> engineCalls calls' = engineCalls calls"
proof -
  obtain a b c d calls1 where
    s: "foldl (wordStep tokenizer p tokens) (([CLS_TOKEN_ID], [1], [PAD_VALUE], 1), calls)
          [0..<length tokens] = ((a, b, c, d), calls1)"
    by (metis prod_cases4 surj_pair)
  have r: "ids = a @ [sep_token_id tokenizer]" "att = b @ [1]" "wm = c @ [PAD_VALUE]"
      "calls' = calls1"
    using assms s by (simp_all add: encodeExample_def)
  show ?thesis using wordStep_fold[OF le_refl s] r by simp
qed

lemma encodeInputs_rows:
  "encodeInputs tokenizer its pls calls = ((ids, att, wm), calls') \<Longrightarrow>
     length ids = length its \<and> length att = length its \<and> length wm = length its
     \<and> (\<forall>i<length its.
            length (ids ! i) = 2 + sum_list (map (subTokens tokenizer) (its ! i))
          \<and> length (att ! i) = length (ids ! i) \<and> length (wm ! i) = length (ids ! i))
     \<and> tokenizerCalls calls' = tokenizerCalls calls + sum_list (map length its)
     \<and> engineCalls calls' = engineCalls calls"
proof (induction its arbitrary: pls calls ids att wm calls')
  case Nil
  then show ?case by simp
next
  case (Cons t ts)
  obtain i1 a1 w1 c1 where e: "encodeExample tokenizer (hd pls) t calls = ((i1, a1, w1), c1)"
    by (metis prod_cases3 surj_pair)
  obtain idss atts wms c2 where r: "encodeInputs tokenizer ts (tl pls) c1 = ((idss, atts, wms), c2)"
    by (metis prod_cases3 surj_pair)
  have eq: "ids = i1 # idss" "att = a1 # atts" "wm = w1 # wms" "calls' = c2"
    using Cons.prems e r by simp_all
  note ih = Cons.IH[OF r]
  note ex = encodeExample_length[OF e]
  show ?case
    unfolding eq using ih ex by (auto simp: nth_Cons split: nat.splits)
qed


lemma buildSpans_rows:
  "buildSpans maxWidth tokens = (spanIdx, spanMask) \<Longrightarrow>
     length spanIdx = length tokens \<and> length spanMask = length tokens
     \<and> (\<forall>i<length tokens. length (spanIdx ! i) = length (tokens ! i) * maxWidth
                           \<and> length (spanMask ! i) = length (tokens ! i) * maxWidth)"
  by (auto simp: buildSpans_def buildSpansRow_def Let_def length_loopNest)

lemma subTokens_sum:
  "\<forall>w\<in>set ws. 3 \<le> length (encode tokenizer w) \<Longrightarrow>
     length ws \<le> sum_list (map (subTokens tokenizer) ws)"
proof (induction ws)
  case Nil
  then show ?case by simp
next
  case (Cons w ws)
  have "3 \<le> length (encode tokenizer w)" using Cons.prems by simp
  then have "1 \<le> subTokens tokenizer w" by (simp add: subTokens_def)
  then show ?case using Cons by simp
qed

lemma Max_length_cong:
  "map length xs = map length ys \<Longrightarrow> Max (length ` set xs) = Max (length ` set ys)"
proof -
  assume "map length xs = map length ys"
  then have "set (map length xs) = set (map length ys)" by simp
  then show ?thesis by simp
qed

text \<open>
  C4 (amended). \<open>prepareBatch\<close> on a non-empty list of texts returns a batch in which,
  for every example \<open>i\<close>:
  \<^item> the token ids, attention mask and word mask rows are the rows that \<open>encodeInputs\<close>
    built, right-padded with \<open>PAD_VALUE\<close> to the largest token row length of the batch;
  \<^item> the span pair row is the row that \<open>buildSpans\<close> built, right-padded with \<open>(0, 0)\<close>,
    and the span mask row is its mask row right-padded with the number \<open>0\<close>, both to the
    largest span row length of the batch;
  \<^item> \<open>textLengths\<close> holds the word count of the text, which is at most the padded span
    row length when \<open>maxWidth \<ge> 1\<close>, and at most the padded token row length when the
    tokenizer returns at least three ids (one sub-token between the two that are stripped)
    for each word of the text.
\<close>

theorem C4_batch_padding:
  assumes "texts \<noteq> []"
  shows "\<exists>batch calls' ids attention words spanIdx spanMask.
      prepareBatch maxWidth tokenizer texts entities calls = Some (batch, calls')
    \<and> encodeInputs tokenizer (map (\<lambda>tokens. promptOf entities @ tokens) (batchTokens batch))
          (map (\<lambda>tokens. length (promptOf entities)) (batchTokens batch)) calls
        = ((ids, attention, words), calls')
    \<and> buildSpans maxWidth (batchTokens batch) = (spanIdx, spanMask)
    \<and> length (inputsIds batch) = length texts \<and> length (attentionMasks batch) = length texts
    \<and> length (wordsMasks batch) = length texts \<and> length (spanIdxs batch) = length texts
    \<and> length (spanMasks batch) = length texts \<and> length (textLengths batch) = length texts
    \<and> (\<forall>i<length texts.
          (\<exists>triples. whitespaceSplit (texts ! i) = Some triples
                     \<and> batchTokens batch ! i = map fst triples)
        \<and> textLengths batch ! i = length (batchTokens batch ! i)
        \<and> inputsIds batch ! i
            = ids ! i @ replicate (Max (length ` set ids) - length (ids ! i)) PAD_VALUE
        \<and> attentionMasks batch ! i
            = attention ! i @ replicate (Max (length ` set ids) - length (attention ! i)) PAD_VALUE
        \<and> wordsMasks batch ! i
            = words ! i @ replicate (Max (length ` set ids) - length (words ! i)) PAD_VALUE
        \<and> spanIdxs batch ! i
            = spanIdx ! i @ replicate (Max (length ` set spanIdx) - length (spanIdx ! i)) (0, 0)
        \<and> spanMasks batch ! i
            = map MaskFlag (spanMask ! i)
              @ replicate (Max (length ` set spanIdx) - length (spanMask ! i)) (MaskNumber 0)
        \<and> length (inputsIds batch ! i) = Max (length ` set ids)
        \<and> length (attentionMasks batch ! i) = Max (length ` set ids)
        \<and> length (wordsMasks batch ! i) = Max (length ` set ids)
        \<and> length (spanIdxs batch ! i) = Max (length ` set spanIdx)
        \<and> length (spanMasks batch ! i) = Max (length ` set spanIdx)
        \<and> (1 \<le> maxWidth \<longrightarrow> textLengths batch ! i \<le> length (spanIdxs batch ! i))
        \<and> ((\<forall>w\<in>set (batchTokens batch ! i). 3 \<le> length (encode tokenizer w))
             \<longrightarrow> textLengths batch ! i \<le> length (inputsIds batch ! i)))"
proof -
  let ?n = "length texts"
  obtain tripless where tr: "length tripless = ?n"
      "\<forall>i<?n. whitespaceSplit (texts ! i) = Some (tripless ! i)
            \<and> tokenizes whitespacePattern (texts ! i) 0 (tripless ! i)"
      "tokenizeTexts texts
         = Some (map (map fst) tripless, map (map (\<lambda>t. fst (snd t))) tripless,
                 map (map (\<lambda>t. snd (snd t))) tripless)"
    using tokenizeTexts_total by blast
  let ?tokens = "map (map fst) tripless"
  let ?its = "map (\<lambda>tokens. promptOf entities @ tokens) ?tokens"
  let ?pls = "map (\<lambda>tokens. length (promptOf entities)) ?tokens"
  obtain ids attention words calls' where
    enc: "encodeInputs tokenizer ?its ?pls calls = ((ids, attention, words), calls')"
    by (metis prod_cases3 surj_pair)
  obtain spanIdx spanMask where sp: "buildSpans maxWidth ?tokens = (spanIdx, spanMask)"
    by (cases "buildSpans maxWidth ?tokens")
  let ?batch = "\<lparr>inputsIds = padArrays PAD_VALUE ids,
                 attentionMasks = padArrays PAD_VALUE attention,
                 wordsMasks = padArrays PAD_VALUE words,
                 textLengths = map length ?tokens,
                 spanIdxs = padSpanArrays spanIdx,
                 spanMasks = padArrays (MaskNumber PAD_VALUE) (map (map MaskFlag) spanMask),
                 idToClass = buildIdToClass entities,
                 batchTokens = ?tokens,
                 batchWordsStartIdx = map (map (\<lambda>t. fst (snd t))) tripless,
                 batchWordsEndIdx = map (map (\<lambda>t. snd (snd t))) tripless\<rparr>"
  have run: "prepareBatch maxWidth tokenizer texts entities calls = Some (?batch, calls')"
    using tr(3) enc sp by (simp add: prepareBatch_def buildInputSequences_def)
  note er = encodeInputs_rows[OF enc]
  note sr = buildSpans_rows[OF sp]
  have len: "length ids = ?n" "length attention = ?n" "length words = ?n"
      "length spanIdx = ?n" "length spanMask = ?n"
    using er sr tr(1) by simp_all
  have ml1: "map length attention = map length ids" "map length words = map length ids"
    using er len by (auto intro!: nth_equalityI)
  have ml2: "map length (map (map MaskFlag) spanMask) = map length spanIdx"
    using sr len tr(1) by (auto intro!: nth_equalityI)
  have mx: "Max (length ` set attention) = Max (length ` set ids)"
      "Max (length ` set words) = Max (length ` set ids)"
      "Max (length ` set (map (map MaskFlag) spanMask)) = Max (length ` set spanIdx)"
    using Max_length_cong[OF ml1(1)] Max_length_cong[OF ml1(2)] Max_length_cong[OF ml2]
    by - assumption+
  have rows: "\<forall>i<?n.
          (\<exists>triples. whitespaceSplit (texts ! i) = Some triples
                     \<and> batchTokens ?batch ! i = map fst triples)
        \<and> textLengths ?batch ! i = length (batchTokens ?batch ! i)
        \<and> inputsIds ?batch ! i
            = ids ! i @ replicate (Max (length ` set ids) - length (ids ! i)) PAD_VALUE
        \<and> attentionMasks ?batch ! i
            = attention ! i @ replicate (Max (length ` set ids) - length (attention ! i)) PAD_VALUE
        \<and> wordsMasks ?batch ! i
            = words ! i @ replicate (Max (length ` set ids) - length (words ! i)) PAD_VALUE
        \<and> spanIdxs ?batch ! i
            = spanIdx ! i @ replicate (Max (length ` set spanIdx) - length (spanIdx ! i)) (0, 0)
        \<and> spanMasks ?batch ! i
            = map MaskFlag (spanMask ! i)
              @ replicate (Max (length ` set spanIdx) - length (spanMask ! i)) (MaskNumber 0)
        \<and> length (inputsIds ?batch ! i) = Max (length ` set ids)
        \<and> length (attentionMasks ?batch ! i) = Max (length ` set ids)
        \<and> length (wordsMasks ?batch ! i) = Max (length ` set ids)
        \<and> length (spanIdxs ?batch ! i) = Max (length ` set spanIdx)
        \<and> length (spanMasks ?batch ! i) = Max (length ` set spanIdx)
        \<and> (1 \<le> maxWidth \<longrightarrow> textLengths ?batch ! i \<le> length (spanIdxs ?batch ! i))
        \<and> ((\<forall>w\<in>set (batchTokens ?batch ! i). 3 \<le> length (encode tokenizer w))
             \<longrightarrow> textLengths ?batch ! i \<le> length (inputsIds ?batch ! i))"
  proof (intro allI impI)
    fix i assume i: "i < ?n"
    have it: "i < length tripless" using i tr(1) by simp
    have p1: "padArrays PAD_VALUE ids ! i
                = ids ! i @ replicate (Max (length ` set ids) - length (ids ! i)) PAD_VALUE"
        "length (padArrays PAD_VALUE ids ! i) = Max (length ` set ids)"
      using padArrays_rows[of i ids PAD_VALUE] i len by simp_all
    have p2: "padArrays PAD_VALUE attention ! i
                = attention ! i @ replicate (Max (length ` set ids) - length (attention ! i)) PAD_VALUE"
        "length (padArrays PAD_VALUE attention ! i) = Max (length ` set ids)"
      using padArrays_rows[of i attention PAD_VALUE] i len mx(1) by simp_all
    have p3: "padArrays PAD_VALUE words ! i
                = words ! i @ replicate (Max (length ` set ids) - length (words ! i)) PAD_VALUE"
        "length (padArrays PAD_VALUE words ! i) = Max (length ` set ids)"
      using padArrays_rows[of i words PAD_VALUE] i len mx(2) by simp_all
    have p4: "padSpanArrays spanIdx ! i
                = spanIdx ! i @ replicate (Max (length ` set spanIdx) - length (spanIdx ! i)) (0, 0)"
        "length (padSpanArrays spanIdx ! i) = Max (length ` set spanIdx)"
        "length (spanIdx ! i) \<le> Max (length ` set spanIdx)"
      using padArrays_rows[of i spanIdx "(nat PAD_VALUE, nat PAD_VALUE)"] i len
      by (simp_all add: padSpanArrays_def PAD_VALUE_def)
    have p5: "padArrays (MaskNumber PAD_VALUE) (map (map MaskFlag) spanMask) ! i
                = map MaskFlag (spanMask ! i)
                  @ replicate (Max (length ` set spanIdx) - length (spanMask ! i)) (MaskNumber 0)"
        "length (padArrays (MaskNumber PAD_VALUE) (map (map MaskFlag) spanMask) ! i)
           = Max (length ` set spanIdx)"
      using padArrays_rows[of i "map (map MaskFlag) spanMask" "MaskNumber PAD_VALUE"] i len mx(3)
      by (simp_all add: PAD_VALUE_def)
    have w: "\<exists>triples. whitespaceSplit (texts ! i) = Some triples
                     \<and> ?tokens ! i = map fst triples"
      using tr(2) i it by auto
    have sl: "length (spanIdx ! i) = length (?tokens ! i) * maxWidth"
      using sr i tr(1) by simp
    have s1: "1 \<le> maxWidth \<longrightarrow> length (?tokens ! i) \<le> length (padSpanArrays spanIdx ! i)"
    proof
      assume "1 \<le> maxWidth"
      then have "length (?tokens ! i) \<le> length (spanIdx ! i)" using sl by simp
      then show "length (?tokens ! i) \<le> length (padSpanArrays spanIdx ! i)"
        using p4(2,3) by simp
    qed
    have il: "length (ids ! i) = 2 + sum_list (map (subTokens tokenizer) (?its ! i))"
      using er i tr(1) by simp
    have ile: "length (ids ! i) \<le> Max (length ` set ids)"
      using padArrays_rows[of i ids PAD_VALUE] i len by simp
    have s2: "(\<forall>w\<in>set (?tokens ! i). 3 \<le> length (encode tokenizer w))
             \<longrightarrow> length (?tokens ! i) \<le> length (padArrays PAD_VALUE ids ! i)"
    proof
      assume a: "\<forall>w\<in>set (?tokens ! i). 3 \<le> length (encode tokenizer w)"
      have "length (?tokens ! i) \<le> sum_list (map (subTokens tokenizer) (?tokens ! i))"
        using a by (rule subTokens_sum)
      also have "\<dots> \<le> sum_list (map (subTokens tokenizer) (?its ! i))"
        using it by simp
      also have "\<dots> \<le> length (ids ! i)" using il by simp
      finally show "length (?tokens ! i) \<le> length (padArrays PAD_VALUE ids ! i)"
        using ile p1(2) by simp
    qed
    have tl: "map length ?tokens ! i = length (?tokens ! i)" using it by simp
    show "(\<exists>triples. whitespaceSplit (texts ! i) = Some triples
                     \<and> batchTokens ?batch ! i = map fst triples)
        \<and> textLengths ?batch ! i = length (batchTokens ?batch ! i)
        \<and> inputsIds ?batch ! i
            = ids ! i @ replicate (Max (length ` set ids) - length (ids ! i)) PAD_VALUE
        \<and> attentionMasks ?batch ! i
            = attention ! i @ replicate (Max (length ` set ids) - length (attention ! i)) PAD_VALUE
        \<and> wordsMasks ?batch ! i
            = words ! i @ replicate (Max (length ` set ids) - length (words ! i)) PAD_VALUE
        \<and> spanIdxs ?batch ! i
            = spanIdx ! i @ replicate (Max (length ` set spanIdx) - length (spanIdx ! i)) (0, 0)
        \<and> spanMasks ?batch ! i
            = map MaskFlag (spanMask ! i)
              @ replicate (Max (length ` set spanIdx) - length (spanMask ! i)) (MaskNumber 0)
        \<and> length (inputsIds ?batch ! i) = Max (length ` set ids)
        \<and> length (attentionMasks ?batch ! i) = Max (length ` set ids)
        \<and> length (wordsMasks ?batch ! i) = Max (length ` set ids)
        \<and> length (spanIdxs ?batch ! i) = Max (length ` set spanIdx)
        \<and> length (spanMasks ?batch ! i) = Max (length ` set spanIdx)
        \<and> (1 \<le> maxWidth \<longrightarrow> textLengths ?batch ! i \<le> length (spanIdxs ?batch ! i))
        \<and> ((\<forall>w\<in>set (batchTokens ?batch ! i). 3 \<le> length (encode tokenizer w))
             \<longrightarrow> textLengths ?batch ! i \<le> length (inputsIds ?batch ! i))"
      unfolding ProcessorBatch.simps tl
      using w p1 p2 p3 p4(1,2) p5 s1 s2 by - (intro conjI; (assumption | rule refl))
  qed
  have lens: "length (inputsIds ?batch) = ?n" "length (attentionMasks ?batch) = ?n"
    "length (wordsMasks ?batch) = ?n" "length (spanIdxs ?batch) = ?n"
    "length (spanMasks ?batch) = ?n" "length (textLengths ?batch) = ?n"
    using len tr(1) by (simp_all add: padArrays_def padSpanArrays_def Let_def)
  have enc': "encodeInputs tokenizer (map (\<lambda>tokens. promptOf entities @ tokens) (batchTokens ?batch))
          (map (\<lambda>tokens. length (promptOf entities)) (batchTokens ?batch)) calls
        = ((ids, attention, words), calls')"
    using enc by simp
  have sp': "buildSpans maxWidth (batchTokens ?batch) = (spanIdx, spanMask)"
    using sp by simp
  show ?thesis
    apply (rule exI[of _ ?batch])
    apply (rule exI[of _ calls'])
    apply (rule exI[of _ ids])
    apply (rule exI[of _ attention])
    apply (rule exI[of _ words])
    apply (rule exI[of _ spanIdx])
    apply (rule exI[of _ spanMask])
    apply (intro conjI)
             apply (rule run)
            apply (rule enc')
           apply (rule sp')
          apply (rule lens(1))
         apply (rule lens(2))
        apply (rule lens(3))
       apply (rule lens(4))
      apply (rule lens(5))
     apply (rule lens(6))
    apply (rule rows)
    done
qed


theorem C4_batch_padding_witness:
  "\<exists>batch calls'.
      prepareBatch 2 lengthTokenizer [''ab c'', ''d''] [''x''] noCalls = Some (batch, calls')
    \<and> length (inputsIds batch ! 0) = length (inputsIds batch ! 1)
    \<and> length (spanMasks batch ! 0) = length (spanMasks batch ! 1)
    \<and> textLengths batch ! 0 \<le> length (spanIdxs batch ! 0)
    \<and> textLengths batch ! 0 \<le> length (inputsIds batch ! 0)"
proof -
  have ne: "[''ab c'', ''d''] \<noteq> []" by simp
  obtain batch calls' ids attention words spanIdx spanMask where
    run: "prepareBatch 2 lengthTokenizer [''ab c'', ''d''] [''x''] noCalls = Some (batch, calls')"
    and rows: "\<forall>i<length [''ab c'', ''d''].
          (\<exists>triples. whitespaceSplit ([''ab c'', ''d''] ! i) = Some triples
                     \<and> batchTokens batch ! i = map fst triples)
        \<and> textLengths batch ! i = length (batchTokens batch ! i)
        \<and> inputsIds batch ! i
            = ids ! i @ replicate (Max (length ` set ids) - length (ids ! i)) PAD_VALUE
        \<and> attentionMasks batch ! i
            = attention ! i @ replicate (Max (length ` set ids) - length (attention ! i)) PAD_VALUE
        \<and> wordsMasks batch ! i
            = words ! i @ replicate (Max (length ` set ids) - length (words ! i)) PAD_VALUE
        \<and> spanIdxs batch ! i
            = spanIdx ! i @ replicate (Max (length ` set spanIdx) - length (spanIdx ! i)) (0, 0)
        \<and> spanMasks batch ! i
            = map MaskFlag (spanMask ! i)
              @ replicate (Max (length ` set spanIdx) - length (spanMask ! i)) (MaskNumber 0)
        \<and> length (inputsIds batch ! i) = Max (length ` set ids)
        \<and> length (attentionMasks batch ! i) = Max (length ` set ids)
        \<and> length (wordsMasks batch ! i) = Max (length ` set ids)
        \<and> length (spanIdxs batch ! i) = Max (length ` set spanIdx)
        \<and> length (spanMasks batch ! i) = Max (length ` set spanIdx)
        \<and> (1 \<le> (2::nat) \<longrightarrow> textLengths batch ! i \<le> length (spanIdxs batch ! i))
        \<and> ((\<forall>w\<in>set (batchTokens batch ! i). 3 \<le> length (encode lengthTokenizer w))
             \<longrightarrow> textLengths batch ! i \<le> length (inputsIds batch ! i))"
    using C4_batch_padding [OF ne, of 2 lengthTokenizer "[''x'']" noCalls] by blast
  have i0: "0 < length [''ab c'', ''d'']" and i1: "1 < length [''ab c'', ''d'']" by simp_all
  note r0 = rows[rule_format, OF i0]
  note r1 = rows[rule_format, OF i1]
  have enc: "\<forall>w\<in>set (batchTokens batch ! 0). 3 \<le> length (encode lengthTokenizer w)"
    by (simp add: lengthTokenizer_def)
  have a: "length (inputsIds batch ! 0) = length (inputsIds batch ! 1)"
    using r0[THEN conjunct2, THEN conjunct2, THEN conjunct2, THEN conjunct2, THEN conjunct2, THEN conjunct2, THEN conjunct2, THEN conjunct1] r1[THEN conjunct2, THEN conjunct2, THEN conjunct2, THEN conjunct2, THEN conjunct2, THEN conjunct2, THEN conjunct2, THEN conjunct1] by (simp only:)
  have b: "length (spanMasks batch ! 0) = length (spanMasks batch ! 1)"
    using r0[THEN conjunct2, THEN conjunct2, THEN conjunct2, THEN conjunct2, THEN conjunct2, THEN conjunct2, THEN conjunct2, THEN conjunct2, THEN conjunct2, THEN conjunct2, THEN conjunct2, THEN conjunct1] r1[THEN conjunct2, THEN conjunct2, THEN conjunct2, THEN conjunct2, THEN conjunct2, THEN conjunct2, THEN conjunct2, THEN conjunct2, THEN conjunct2, THEN conjunct2, THEN conjunct2, THEN conjunct1] by (simp only:)
  have c: "textLengths batch ! 0 \<le> length (spanIdxs batch ! 0)"
    using r0[THEN conjunct2, THEN conjunct2, THEN conjunct2, THEN conjunct2, THEN conjunct2, THEN conjunct2, THEN conjunct2, THEN conjunct2, THEN conjunct2, THEN conjunct2, THEN conjunct2, THEN conjunct2, THEN conjunct1] by simp
  have d: "textLengths batch ! 0 \<le> length (inputsIds batch ! 0)"
    using r0[THEN conjunct2, THEN conjunct2, THEN conjunct2, THEN conjunct2, THEN conjunct2, THEN conjunct2, THEN conjunct2, THEN conjunct2, THEN conjunct2, THEN conjunct2, THEN conjunct2, THEN conjunct2, THEN conjunct2] enc by (rule mp)
  show ?thesis using run a b c d by (intro exI[of _ batch] exI[of _ "calls'"]) (intro conjI)
qed

text \<open>
  The claim as stated fails: with a tokenizer that returns the two special tokens alone,
  the text \<open>a b c\<close> has three words and a token row of length two; and with
  \<open>maxWidth = 0\<close> the text \<open>a\<close> has one word and an empty span row.
\<close>

theorem C4_counterexample:
  "map_option (textLengths \<circ> fst)
     (prepareBatch 2 specialsOnlyTokenizer [''a b c''] [''x''] noCalls) = Some [3]
   \<and> map_option (inputsIds \<circ> fst)
     (prepareBatch 2 specialsOnlyTokenizer [''a b c''] [''x''] noCalls) = Some [[1, 2]]
   \<and> \<not> (3::nat) \<le> length [1, 2 :: int]
   \<and> map_option (textLengths \<circ> fst)
     (prepareBatch 0 lengthTokenizer [''a''] [''x''] noCalls) = Some [1]
   \<and> map_option (spanIdxs \<circ> fst)
     (prepareBatch 0 lengthTokenizer [''a''] [''x''] noCalls) = Some [[]]"
  by code_simp

section \<open>Properties of the GLiNER1 runtime\<close>

lemma trim_Nil: "(trim text = []) = list_all isSpace text"
proof
  assume "trim text = []"
  then have a: "dropWhile isSpace (rev (dropWhile isSpace text)) = []"
    by (simp add: trim_def)
  show "list_all isSpace text"
  proof (cases "dropWhile isSpace text")
    case Nil
    then show ?thesis by (simp add: dropWhile_eq_Nil_conv list_all_iff)
  next
    case (Cons c cs)
    then have "\<not> isSpace c" using hd_dropWhile[of isSpace "text"] by simp
    moreover have "isSpace c" using a Cons by (simp add: dropWhile_eq_Nil_conv)
    ultimately show ?thesis by simp
  qed
next
  assume "list_all isSpace text"
  then have "dropWhile isSpace text = []" by (simp add: dropWhile_eq_Nil_conv list_all_iff)
  then show "trim text = []" by (simp add: trim_def del: dropWhile_eq_Nil_conv)
qed

lemma blank_split:
  assumes "list_all isSpace text"
  shows "whitespaceSplit text = Some []"
proof -
  obtain toks where t: "whitespaceSplit text = Some toks" "tokenizes whitespacePattern text 0 toks"
    using whitespaceSplit_tokenizes by blast
  have "toks = []"
  proof (cases toks)
    case Nil
    then show ?thesis .
  next
    case (Cons p more)
    obtain tok st en where p: "p = (tok, st, en)" by (cases p) auto
    have A: "tok \<noteq> []" "list_all (\<lambda>c. \<not> isSpace c) tok" "tok = take (length tok) (drop (st - 0) text)"
      using t(2) unfolding Cons p by simp_all
    have "hd tok \<in> set tok" using A(1) by simp
    then have n: "\<not> isSpace (hd tok)" using A(2) by (simp add: list_all_iff)
    have "set tok \<subseteq> set text" using A(3) by (metis set_take_subset set_drop_subset subset_trans)
    then have "isSpace (hd tok)" using assms \<open>hd tok \<in> set tok\<close> by (auto simp: list_all_iff)
    then show ?thesis using n by simp
  qed
  then show ?thesis using t(1) by simp
qed

lemma prepareBatch_total:
  "\<exists>batch calls1 tripless.
      prepareBatch maxWidth tokenizer texts entities calls = Some (batch, calls1)
    \<and> length tripless = length texts
    \<and> (\<forall>i<length texts. whitespaceSplit (texts ! i) = Some (tripless ! i))
    \<and> batchTokens batch = map (map fst) tripless
    \<and> batchWordsStartIdx batch = map (map (\<lambda>t. fst (snd t))) tripless
    \<and> batchWordsEndIdx batch = map (map (\<lambda>t. snd (snd t))) tripless
    \<and> engineCalls calls1 = engineCalls calls"
proof -
  obtain tripless where tr: "length tripless = length texts"
      "\<forall>i<length texts. whitespaceSplit (texts ! i) = Some (tripless ! i)
            \<and> tokenizes whitespacePattern (texts ! i) 0 (tripless ! i)"
      "tokenizeTexts texts
         = Some (map (map fst) tripless, map (map (\<lambda>t. fst (snd t))) tripless,
                 map (map (\<lambda>t. snd (snd t))) tripless)"
    using tokenizeTexts_total by blast
  obtain inputTokens lengths promptLengths where
    b: "buildInputSequences (map (map fst) tripless) entities = (inputTokens, lengths, promptLengths)"
    by (metis prod_cases3)
  obtain ids att wm calls1 where
    e: "encodeInputs tokenizer inputTokens promptLengths calls = ((ids, att, wm), calls1)"
    by (metis prod_cases3 surj_pair)
  obtain spanIdx spanMask where
    s: "buildSpans maxWidth (map (map fst) tripless) = (spanIdx, spanMask)"
    by (metis surj_pair)
  have ec: "engineCalls calls1 = engineCalls calls" using encodeInputs_rows[OF e] by blast
  have w: "\<forall>i<length texts. whitespaceSplit (texts ! i) = Some (tripless ! i)"
    using tr(2) by blast
  show ?thesis
    apply (rule exI[of _ "\<lparr>inputsIds = padArrays PAD_VALUE ids,
                                 attentionMasks = padArrays PAD_VALUE att,
                                 wordsMasks = padArrays PAD_VALUE wm,
                                 textLengths = lengths,
                                 spanIdxs = padSpanArrays spanIdx,
                                 spanMasks = padArrays (MaskNumber PAD_VALUE)
                                               (map (map MaskFlag) spanMask),
                                 idToClass = buildIdToClass entities,
                                 batchTokens = map (map fst) tripless,
                                 batchWordsStartIdx = map (map (\<lambda>t. fst (snd t))) tripless,
                                 batchWordsEndIdx = map (map (\<lambda>t. snd (snd t))) tripless\<rparr>"])
    apply (rule exI[of _ calls1])
    apply (rule exI[of _ tripless])
    using tr(1) w ec by (simp add: prepareBatch_def tr(3) b e s)
qed

lemma extractCandidate_row_nonempty:
  assumes "extractCandidate approx maxWidth inputLength entityCount texts batchIds charStartOffsets
             charEndOffsets classes modelOutput threshold idx = Some (b, sp)"
  shows "charStartOffsets ! b \<noteq> []"
  using assms
  by (auto simp: extractCandidate_def Let_def nth_opt_def split: if_splits option.splits)

lemma greedySearch_Nil: "greedySearch [] f m = []"
  by (simp add: greedySearch_def greedySelected_def sortByScoreDesc_def)

lemma runInference_slots:
  assumes "texts \<noteq> []"
  shows "\<exists>res calls'. runInference approx maxWidth tokenizer session texts entities threshold calls
            = Some (res, calls')
         \<and> engineCalls calls' = engineCalls calls + 1
         \<and> (res = Inl (ConfigurationError ''Model output missing logits'')
              \<and> (\<exists>feeds. map_of (session feeds) ONNX_OUTPUT_LOGITS = None)
            \<or> (\<exists>slots. res = Inr slots \<and> length slots = length texts
                  \<and> (\<forall>i<length texts. list_all isSpace (texts ! i) \<longrightarrow> slots ! i = [])))"
proof -
  obtain batch calls1 tripless where p:
    "prepareBatch maxWidth tokenizer texts entities calls = Some (batch, calls1)"
    "length tripless = length texts"
    "\<forall>i<length texts. whitespaceSplit (texts ! i) = Some (tripless ! i)"
    "batchTokens batch = map (map fst) tripless"
    "batchWordsStartIdx batch = map (map (\<lambda>t. fst (snd t))) tripless"
    "batchWordsEndIdx batch = map (map (\<lambda>t. snd (snd t))) tripless"
    "engineCalls calls1 = engineCalls calls"
    using prepareBatch_total by blast
  define calls2 where "calls2 = calls1\<lparr>engineCalls := engineCalls calls1 + 1\<rparr>"
  have c2: "engineCalls calls2 = engineCalls calls + 1" using p(7) by (simp add: calls2_def)
  show ?thesis
  proof (cases "map_of (session (buildTensors batch)) ONNX_OUTPUT_LOGITS")
    case None
    then have "runInference approx maxWidth tokenizer session texts entities threshold calls
        = Some (Inl (ConfigurationError ''Model output missing logits''), calls2)"
      by (simp add: runInference_def p(1) Let_def calls2_def)
    then show ?thesis using c2 None by blast
  next
    case (Some logits)
    let ?n = "length texts"
    let ?il = "foldr max (textLengths batch) 0"
    let ?C = "extractCandidate approx maxWidth ?il (length entities) texts [0..<?n]
                (batchWordsStartIdx batch) (batchWordsEndIdx batch) (idToClass batch)
                (map Fin logits) (Fin threshold)"
    let ?G = "\<lambda>batchSpans. greedySearch (map finiteSpan batchSpans) True False"
    have len: "length (batchWordsStartIdx batch) = ?n" using p(2,5) by simp
    have bound: "\<forall>idx<length (map Fin logits). \<forall>b sp. ?C idx = Some (b, sp) \<longrightarrow> b < ?n"
      using extractCandidate_batch_bound len by metis
    note g = extractSpans_groups[OF bound]
    define rows where "rows = map (\<lambda>b. map (\<lambda>idx. snd (the (?C idx)))
                  (filter (\<lambda>idx. \<exists>sp. ?C idx = Some (b, sp)) [0..<length (map Fin logits)]))
                  [0..<?n]"
    have d: "decode approx maxWidth ?n ?il (length entities) texts [0..<?n]
                (batchWordsStartIdx batch) (batchWordsEndIdx batch) (idToClass batch)
                (map Fin logits)
                \<lparr>opt_threshold = Some threshold, opt_flatNer = None, opt_multiLabel = None\<rparr>
             = Inr (map ?G rows)"
      by (simp add: decode_def g rows_def)
    have r: "runInference approx maxWidth tokenizer session texts entities threshold calls
        = Some (Inr (map ?G rows), calls2)"
      using d by (simp add: runInference_def p(1) Let_def calls2_def Some p(4,2))
    have l: "length (map ?G rows) = ?n"
      by (simp add: rows_def)
    have blank: "map ?G rows ! i = []"
      if i: "i < ?n" and sp: "list_all isSpace (texts ! i)" for i
    proof -
      have "tripless ! i = []" using blank_split[OF sp] p(3) i by simp
      then have e: "batchWordsStartIdx batch ! i = []" using p(5,2) i by simp
      have "\<And>idx sp. ?C idx \<noteq> Some (i, sp)"
        using extractCandidate_row_nonempty e by blast
      then have "rows ! i = []" using i by (simp add: rows_def)
      then show ?thesis using i by (simp add: rows_def greedySearch_Nil)
    qed
    show ?thesis using r c2 l blank by blast
  qed
qed

text \<open>
  C10. \<open>extractEntitiesBatch\<close> validates only that the list of texts and the list of labels
  are non-empty: it returns, and its outcome is a \<open>ValidationError\<close> exactly when one of the two
  lists is empty, in which case no collaborator has been called. Otherwise the session is run
  once, and when its output has \<open>logits\<close> the result has one slot per text; an element that is
  empty or consists of whitespace goes through batching and decoding like the others, its slot
  is the empty list, and \<open>extractEntities\<close> on that same text with the same labels raises
  \<open>ValidationError\<close> without any call.
\<close>

theorem C10_batch_validation:
  "\<exists>res calls'.
     gliner1_extractEntitiesBatch approx maxWidth tokenizer session texts labels optThreshold calls
       = Some (res, calls')
     \<and> ((\<exists>msg. res = Inl (ValidationError msg)) = (texts = [] \<or> labels = []))
     \<and> (texts = [] \<or> labels = [] \<longrightarrow> calls' = calls)
     \<and> (texts \<noteq> [] \<and> labels \<noteq> [] \<longrightarrow>
          engineCalls calls' = engineCalls calls + 1
          \<and> ((\<forall>feeds. map_of (session feeds) ONNX_OUTPUT_LOGITS \<noteq> None) \<longrightarrow>
               (\<exists>slots. res = Inr slots \<and> length slots = length texts
                  \<and> (\<forall>i<length texts. trim (texts ! i) = [] \<longrightarrow>
                        slots ! i = []
                        \<and> gliner1_extractEntities approx maxWidth tokenizer session (texts ! i) labels
                              optThreshold calls
                            = Some (Inl (ValidationError ''Text cannot be empty''), calls)))))"
proof (cases "texts = [] \<or> labels = []")
  case True
  then obtain msg where
    m: "gliner1_extractEntitiesBatch approx maxWidth tokenizer session texts labels optThreshold calls
          = Some (Inl (ValidationError msg), calls)"
    by (cases "texts = []") (simp_all add: gliner1_extractEntitiesBatch_def Let_def)
  show ?thesis
    apply (rule exI[of _ "Inl (ValidationError msg)"])
    apply (rule exI[of _ calls])
    using m True by simp
next
  case False
  then have ne: "texts \<noteq> []" "labels \<noteq> []" by simp_all
  define threshold where
    "threshold = (case optThreshold of None \<Rightarrow> DEFAULT_THRESHOLD | Some t \<Rightarrow> t)"
  note ex = runInference_slots[OF ne(1), of approx maxWidth tokenizer session labels threshold calls]
  from ex obtain raw calls' where r:
    "runInference approx maxWidth tokenizer session texts labels threshold calls = Some (raw, calls')"
    "engineCalls calls' = engineCalls calls + 1"
    "raw = Inl (ConfigurationError ''Model output missing logits'')
              \<and> (\<exists>feeds. map_of (session feeds) ONNX_OUTPUT_LOGITS = None)
            \<or> (\<exists>slots. raw = Inr slots \<and> length slots = length texts
                  \<and> (\<forall>i<length texts. list_all isSpace (texts ! i) \<longrightarrow> slots ! i = []))"
    by (elim exE conjE) (rule that)
  have single: "gliner1_extractEntities approx maxWidth tokenizer session t labels optThreshold calls
                  = Some (Inl (ValidationError ''Text cannot be empty''), calls)"
    if "trim t = []" for t
    using that by (simp add: gliner1_extractEntities_def Let_def)
  from r(3) show ?thesis
  proof
    assume a: "raw = Inl (ConfigurationError ''Model output missing logits'')
              \<and> (\<exists>feeds. map_of (session feeds) ONNX_OUTPUT_LOGITS = None)"
    have cfg: "gliner1_extractEntitiesBatch approx maxWidth tokenizer session texts labels optThreshold calls
            = Some (Inl (ConfigurationError ''Model output missing logits''), calls')"
      using ne r(1) a
      by (simp add: gliner1_extractEntitiesBatch_def Let_def threshold_def[symmetric])
    show ?thesis
      apply (rule exI[of _ "Inl (ConfigurationError ''Model output missing logits'')"])
      apply (rule exI[of _ calls'])
      using cfg ne r(2) a by simp
  next
    assume "\<exists>slots. raw = Inr slots \<and> length slots = length texts
                  \<and> (\<forall>i<length texts. list_all isSpace (texts ! i) \<longrightarrow> slots ! i = [])"
    then obtain slots where s: "raw = Inr slots" "length slots = length texts"
        "\<forall>i<length texts. list_all isSpace (texts ! i) \<longrightarrow> slots ! i = []"
      by blast
    have b: "gliner1_extractEntitiesBatch approx maxWidth tokenizer session texts labels optThreshold calls
            = Some (Inr (map convertToEntities slots), calls')"
      using ne r(1) s(1)
      by (simp add: gliner1_extractEntitiesBatch_def Let_def threshold_def[symmetric])
    have l: "length (map convertToEntities slots) = length texts" using s(2) by simp
    have e: "map convertToEntities slots ! i = []"
      if "i < length texts" "trim (texts ! i) = []" for i
      using that s(2,3) by (simp add: trim_Nil convertToEntities_def)
    show ?thesis
      apply (rule exI[of _ "Inr (map convertToEntities slots)"])
      apply (rule exI[of _ calls'])
      using b l e single ne r(2) by simp
  qed
qed

lemma zeroLogits_present: "map_of (zeroLogitsSession n feeds) ONNX_OUTPUT_LOGITS \<noteq> None"
  by (simp add: zeroLogitsSession_def ONNX_OUTPUT_LOGITS_def)

lemma trim_blank: "trim '' '' = []"
  by (simp add: trim_def isSpace_def)

theorem C10_batch_validation_witness:
  "\<exists>calls'. gliner1_extractEntitiesBatch coarseExp 2 lengthTokenizer (zeroLogitsSession 1) ['' '']
                [''person''] None noCalls = Some (Inr [[]], calls')
     \<and> engineCalls calls' = 1
     \<and> gliner1_extractEntities coarseExp 2 lengthTokenizer (zeroLogitsSession 1) '' '' [''person''] None
         noCalls = Some (Inl (ValidationError ''Text cannot be empty''), noCalls)"
proof -
  obtain res calls' where t:
    "gliner1_extractEntitiesBatch coarseExp 2 lengthTokenizer (zeroLogitsSession 1) ['' ''] [''person'']
        None noCalls = Some (res, calls')"
    "(['' ''] \<noteq> [] \<and> [''person''] \<noteq> [] \<longrightarrow>
          engineCalls calls' = engineCalls noCalls + 1
          \<and> ((\<forall>feeds. map_of (zeroLogitsSession 1 feeds) ONNX_OUTPUT_LOGITS \<noteq> None) \<longrightarrow>
               (\<exists>slots. res = Inr slots \<and> length slots = length ['' '']
                  \<and> (\<forall>i<length ['' '']. trim (['' ''] ! i) = [] \<longrightarrow>
                        slots ! i = []
                        \<and> gliner1_extractEntities coarseExp 2 lengthTokenizer (zeroLogitsSession 1)
                              (['' ''] ! i) [''person''] None noCalls
                            = Some (Inl (ValidationError ''Text cannot be empty''), noCalls)))))"
    using C10_batch_validation[of coarseExp 2 lengthTokenizer "zeroLogitsSession 1" "['' '']"
        "[''person'']" None noCalls] by blast
  have e: "engineCalls calls' = 1"
    using mp[OF t(2), THEN conjunct1] by (simp add: noCalls_def)
  obtain slots where s: "res = Inr slots" "length slots = length ['' '']"
      "\<forall>i<length ['' '']. trim (['' ''] ! i) = [] \<longrightarrow>
                        slots ! i = []
                        \<and> gliner1_extractEntities coarseExp 2 lengthTokenizer (zeroLogitsSession 1)
                              (['' ''] ! i) [''person''] None noCalls
                            = Some (Inl (ValidationError ''Text cannot be empty''), noCalls)"
  proof -
    have h1: "['' ''] \<noteq> [] \<and> [''person''] \<noteq> []" by simp
    have h2: "\<forall>feeds. map_of (zeroLogitsSession 1 feeds) ONNX_OUTPUT_LOGITS \<noteq> None"
      by (simp add: zeroLogits_present)
    note t2 = mp[OF t(2) h1]
    note t3 = mp[OF t2[THEN conjunct2] h2]
    from t3 show ?thesis by (elim exE conjE) (rule that)
  qed
  have z: "slots ! 0 = []"
     "gliner1_extractEntities coarseExp 2 lengthTokenizer (zeroLogitsSession 1)
                              '' '' [''person''] None noCalls
                            = Some (Inl (ValidationError ''Text cannot be empty''), noCalls)"
    using s(3) trim_blank by simp_all
  have "slots = [[]]" using s(2) z(1) by (cases slots) simp_all
  then show ?thesis using t(1) s(1) e z(2) by simp
qed

end
